theory Spec2Isabelle
  imports Main "HOL-Library.AList" "HOL-Library.Char_ord" "HOL-Library.List_Lexorder" "HOL-Library.Multiset"
begin

section \<open>E-MFS: the node store\<close>

text \<open>
  The file system of \<^verbatim>\<open>e-mfs.hpp\<close> is a graph of heap objects: every
  \<^verbatim>\<open>std::shared_ptr\<close> is an address into a store of nodes, the
  \<^verbatim>\<open>std::weak_ptr\<close> to the parent is an optional address. A node is never
  removed from the store of the model: a node that C++ destroys is a node that no
  reachable node refers to any more. Allocation (\<^verbatim>\<open>std::make_shared\<close>)
  appends to the store, so a new address is always fresh.

  The children of a directory (\<^verbatim>\<open>std::unordered_map\<close>) are an association
  list; the order of the list is the iteration order of the map, which the C++ standard
  leaves open.
\<close>

type_synonym addr = nat

datatype NodeType = File | Directory

datatype node_data =
    FileNode (content: "char list")
  | DirectoryNode (children: "(string \<times> addr) list")

record FSNode =
  name :: string
  parent :: "addr option"
  data :: node_data

record FileSystem =
  root :: addr
  heap :: "FSNode list"

text \<open>
  The kinds of failure. Every \<^verbatim>\<open>throw FileSystemException(msg)\<close> of the source
  is one of the first nine constructors (the kind that the specification gives to the
  message); \<open>UndefinedBehaviour\<close> is not an exception: it stands for the dereference of
  a null or ill-typed pointer, which no \<^verbatim>\<open>catch\<close> handles.
\<close>

datatype error =
    InvalidPath | NotFound | NotADirectory | NotAFile | IsADirectory
  | AlreadyExists | DirectoryNotEmpty | CyclicMove | InternalError
  | UndefinedBehaviour

definition getType :: "FSNode \<Rightarrow> NodeType" where
  "getType n = (case data n of FileNode _ \<Rightarrow> File | DirectoryNode _ \<Rightarrow> Directory)"

definition node_at :: "FileSystem \<Rightarrow> addr \<Rightarrow> FSNode option" where
  "node_at s a = (if a < length (heap s) then Some (heap s ! a) else None)"

text \<open>Reading \<^verbatim>\<open>dir->children\<close> through a pointer to a directory.\<close>

definition children_at :: "FileSystem \<Rightarrow> addr \<Rightarrow> (string \<times> addr) list option" where
  "children_at s a =
     (case node_at s a of
        None \<Rightarrow> None
      | Some n \<Rightarrow> (case data n of FileNode _ \<Rightarrow> None | DirectoryNode cs \<Rightarrow> Some cs))"

text \<open>\<^verbatim>\<open>std::make_shared\<close>: the new node gets the next address.\<close>

definition alloc :: "FileSystem \<Rightarrow> FSNode \<Rightarrow> addr \<times> FileSystem" where
  "alloc s n = (length (heap s), s\<lparr>heap := heap s @ [n]\<rparr>)"

definition put_node :: "FileSystem \<Rightarrow> addr \<Rightarrow> FSNode \<Rightarrow> FileSystem" where
  "put_node s a n = s\<lparr>heap := (heap s)[a := n]\<rparr>"

text \<open>
  \<^verbatim>\<open>dir->children[key] = child\<close> and \<^verbatim>\<open>dir->children.erase(key)\<close>, for a
  pointer \<open>dir\<close> whose children have been read before.
\<close>

definition set_child :: "FileSystem \<Rightarrow> addr \<Rightarrow> string \<Rightarrow> addr \<Rightarrow> FileSystem" where
  "set_child s dir key child =
     (case node_at s dir of
        None \<Rightarrow> s
      | Some n \<Rightarrow>
          (case data n of
             FileNode _ \<Rightarrow> s
           | DirectoryNode cs \<Rightarrow>
               put_node s dir (n\<lparr>data := DirectoryNode (AList.update key child cs)\<rparr>)))"

definition erase_child :: "FileSystem \<Rightarrow> addr \<Rightarrow> string \<Rightarrow> FileSystem" where
  "erase_child s dir key =
     (case node_at s dir of
        None \<Rightarrow> s
      | Some n \<Rightarrow>
          (case data n of
             FileNode _ \<Rightarrow> s
           | DirectoryNode cs \<Rightarrow>
               put_node s dir (n\<lparr>data := DirectoryNode (AList.delete key cs)\<rparr>)))"

text \<open>The constructor \<^verbatim>\<open>FileSystem()\<close>: a root directory named \<^verbatim>\<open>/\<close>.\<close>

definition new_fs :: FileSystem where
  "new_fs = \<lparr>root = 0, heap = [\<lparr>name = ''/'', parent = None, data = DirectoryNode []\<rparr>]\<rparr>"

section \<open>Path resolution\<close>

text \<open>
  \<^verbatim>\<open>while (std::getline(ss, component, '/'))\<close>: the components that the loop
  sees, in order. A read takes the characters up to the next \<^verbatim>\<open>/\<close> and consumes
  the \<^verbatim>\<open>/\<close>; at the end of the input it fails, so a path that ends in
  \<^verbatim>\<open>/\<close> has no empty last component. After a read, \<^verbatim>\<open>ss.peek() != EOF\<close>
  holds exactly when a further component follows.
\<close>

fun getlines :: "string \<Rightarrow> string list" where
  "getlines [] = []"
| "getlines (c # cs) =
     (if c = CHR ''/'' then [] # getlines cs
      else (case getlines cs of [] \<Rightarrow> [[c]] | t # ts \<Rightarrow> (c # t) # ts))"

text \<open>\<^verbatim>\<open>if (ss.peek() == '/') ss.ignore();\<close>\<close>

definition skip_slash :: "string \<Rightarrow> string" where
  "skip_slash p = (case p of [] \<Rightarrow> [] | c # cs \<Rightarrow> if c = CHR ''/'' then cs else p)"

text \<open>
  The loop of \<^verbatim>\<open>_resolvePath\<close> over the components, from the node \<open>current\<close>.
  \<^verbatim>\<open>current->parent.lock()\<close> is the parent address of the node. Where the code
  would go on with a null \<open>current\<close> (a node other than the root whose parent pointer
  is null), or dereferences a pointer that refers to no node, or to a file where it has
  a \<^verbatim>\<open>DirectoryNode\<close> pointer, the model answers \<open>UndefinedBehaviour\<close>. In a
  well-formed store none of this happens (lemma \<open>resolvePath_wf\<close> below).
\<close>

fun resolve_loop :: "FileSystem \<Rightarrow> addr \<Rightarrow> string list \<Rightarrow> error + addr" where
  "resolve_loop s current [] = Inr current"
| "resolve_loop s current (component # rest) =
     (if component = [] \<or> component = ''.'' then resolve_loop s current rest
      else if component = ''..'' then
        (if current \<noteq> root s then
           (case node_at s current of
              None \<Rightarrow> Inl UndefinedBehaviour
            | Some cn \<Rightarrow>
                (case parent cn of
                   None \<Rightarrow> Inl UndefinedBehaviour
                 | Some p \<Rightarrow> resolve_loop s p rest))
         else resolve_loop s current rest)
      else
        (case children_at s current of
           None \<Rightarrow> Inl UndefinedBehaviour
         | Some cs \<Rightarrow>
             (case map_of cs component of
                None \<Rightarrow> Inl NotFound
              | Some child \<Rightarrow>
                  (case node_at s child of
                     None \<Rightarrow> Inl UndefinedBehaviour
                   | Some chn \<Rightarrow>
                       if getType chn \<noteq> Directory \<and> rest \<noteq> [] then Inl NotADirectory
                       else if getType chn = Directory then resolve_loop s child rest
                       else Inr child))))"

definition resolvePath :: "FileSystem \<Rightarrow> string \<Rightarrow> error + addr" where
  "resolvePath s path =
     (if path = [] then Inl InvalidPath
      else if path = ''/'' then Inr (root s)
      else resolve_loop s (root s) (getlines (skip_slash path)))"

text \<open>\<^verbatim>\<open>path.find_last_of('/')\<close>\<close>

fun find_last_of :: "string \<Rightarrow> char \<Rightarrow> nat option" where
  "find_last_of [] c = None"
| "find_last_of (x # xs) c =
     (case find_last_of xs c of
        Some i \<Rightarrow> Some (Suc i)
      | None \<Rightarrow> if x = c then Some 0 else None)"

definition resolveParentAndName :: "FileSystem \<Rightarrow> string \<Rightarrow> error + (addr \<times> string)" where
  "resolveParentAndName s path =
     (if path = [] \<or> path = ''/'' then Inl InvalidPath
      else case find_last_of path (CHR ''/'') of
        None \<Rightarrow> Inl InvalidPath
      | Some last_slash \<Rightarrow>
          (let parentPath = (if last_slash = 0 then ''/'' else take last_slash path);
               childName = drop (last_slash + 1) path
           in if childName = [] then Inl InvalidPath
              else case resolvePath s parentPath of
                Inl e \<Rightarrow> Inl e
              | Inr parentNode \<Rightarrow>
                  (case node_at s parentNode of
                     None \<Rightarrow> Inl UndefinedBehaviour
                   | Some pn \<Rightarrow>
                       if getType pn \<noteq> Directory then Inl NotADirectory
                       else Inr (parentNode, childName))))"

text \<open>
  The body of the \<^verbatim>\<open>try\<close> block of \<^verbatim>\<open>_resolveDestination\<close>, and the function
  with its handler \<^verbatim>\<open>catch (const FileSystemException&)\<close>, which takes every
  exception of the block, also the two that the block throws itself.
\<close>

definition resolveDestination_try ::
  "FileSystem \<Rightarrow> string \<Rightarrow> string \<Rightarrow> error + (addr \<times> string)" where
  "resolveDestination_try s dest_path source_name =
     (case resolvePath s dest_path of
        Inl e \<Rightarrow> Inl e
      | Inr dest_node \<Rightarrow>
          (case node_at s dest_node of
             None \<Rightarrow> Inl UndefinedBehaviour
           | Some dn \<Rightarrow>
               (case data dn of
                  DirectoryNode cs \<Rightarrow>
                    if map_of cs source_name \<noteq> None then Inl AlreadyExists
                    else Inr (dest_node, source_name)
                | FileNode _ \<Rightarrow> Inl AlreadyExists)))"

definition resolveDestination ::
  "FileSystem \<Rightarrow> string \<Rightarrow> string \<Rightarrow> error + (addr \<times> string)" where
  "resolveDestination s dest_path source_name =
     (case resolveDestination_try s dest_path source_name of
        Inr r \<Rightarrow> Inr r
      | Inl e \<Rightarrow>
          if e = UndefinedBehaviour then Inl UndefinedBehaviour
          else resolveParentAndName s dest_path)"

section \<open>The operations\<close>

text \<open>
  A mutating operation returns its outcome together with the store that it leaves:
  \<open>Inl e\<close> is the exception thrown (or \<open>UndefinedBehaviour\<close>), and the store
  beside it is the store at the moment of the throw.
\<close>

fun mkdir_loop :: "FileSystem \<Rightarrow> addr \<Rightarrow> string list \<Rightarrow> (error + addr) \<times> FileSystem" where
  "mkdir_loop s current [] = (Inr current, s)"
| "mkdir_loop s current (component # rest) =
     (if component = [] then mkdir_loop s current rest
      else case children_at s current of
        None \<Rightarrow> (Inl UndefinedBehaviour, s)
      | Some cs \<Rightarrow>
          (case map_of cs component of
             None \<Rightarrow>
               (let (newDir, s1) =
                      alloc s \<lparr>name = component, parent = Some current, data = DirectoryNode []\<rparr>;
                    s2 = set_child s1 current component newDir
                in mkdir_loop s2 newDir rest)
           | Some child \<Rightarrow>
               (case node_at s child of
                  None \<Rightarrow> (Inl UndefinedBehaviour, s)
                | Some chn \<Rightarrow>
                    if getType chn \<noteq> Directory then (Inl NotADirectory, s)
                    else mkdir_loop s child rest)))"

definition mkdir :: "FileSystem \<Rightarrow> string \<Rightarrow> (error + unit) \<times> FileSystem" where
  "mkdir s path =
     (if path = ''/'' then (Inr (), s)
      else case mkdir_loop s (root s) (getlines (skip_slash path)) of
        (Inl e, s') \<Rightarrow> (Inl e, s')
      | (Inr _, s') \<Rightarrow> (Inr (), s'))"

definition touch :: "FileSystem \<Rightarrow> string \<Rightarrow> (error + unit) \<times> FileSystem" where
  "touch s path =
     (case resolveParentAndName s path of
        Inl e \<Rightarrow> (Inl e, s)
      | Inr (parentDir, fileName) \<Rightarrow>
          (case children_at s parentDir of
             None \<Rightarrow> (Inl UndefinedBehaviour, s)
           | Some cs \<Rightarrow>
               (case map_of cs fileName of
                  Some child \<Rightarrow>
                    (case node_at s child of
                       None \<Rightarrow> (Inl UndefinedBehaviour, s)
                     | Some chn \<Rightarrow>
                         if getType chn \<noteq> File then (Inl NotAFile, s) else (Inr (), s))
                | None \<Rightarrow>
                    (let (newFile, s1) =
                           alloc s \<lparr>name = fileName, parent = Some parentDir, data = FileNode []\<rparr>
                     in (Inr (), set_child s1 parentDir fileName newFile)))))"

definition writeFile :: "FileSystem \<Rightarrow> string \<Rightarrow> char list \<Rightarrow> (error + unit) \<times> FileSystem" where
  "writeFile s path bytes =
     (case resolveParentAndName s path of
        Inl e \<Rightarrow> (Inl e, s)
      | Inr (parentDir, fileName) \<Rightarrow>
          (case children_at s parentDir of
             None \<Rightarrow> (Inl UndefinedBehaviour, s)
           | Some cs \<Rightarrow>
               (case (case map_of cs fileName of
                        None \<Rightarrow> Inr False
                      | Some child \<Rightarrow>
                          (case node_at s child of
                             None \<Rightarrow> Inl UndefinedBehaviour
                           | Some chn \<Rightarrow> Inr (getType chn = Directory))) of
                  Inl e \<Rightarrow> (Inl e, s)
                | Inr True \<Rightarrow> (Inl IsADirectory, s)
                | Inr False \<Rightarrow>
                    (let (file, s1) =
                           alloc s \<lparr>name = fileName, parent = Some parentDir, data = FileNode bytes\<rparr>
                     in (Inr (), set_child s1 parentDir fileName file)))))"

definition append_fs :: "FileSystem \<Rightarrow> string \<Rightarrow> char list \<Rightarrow> (error + unit) \<times> FileSystem" where
  "append_fs s path bytes =
     (case resolvePath s path of
        Inl e \<Rightarrow> (Inl e, s)
      | Inr node \<Rightarrow>
          (case node_at s node of
             None \<Rightarrow> (Inl UndefinedBehaviour, s)
           | Some n \<Rightarrow>
               (case data n of
                  DirectoryNode _ \<Rightarrow> (Inl NotAFile, s)
                | FileNode old \<Rightarrow> (Inr (), put_node s node (n\<lparr>data := FileNode (old @ bytes)\<rparr>)))))"

definition cat :: "FileSystem \<Rightarrow> string \<Rightarrow> error + char list" where
  "cat s path =
     (case resolvePath s path of
        Inl e \<Rightarrow> Inl e
      | Inr node \<Rightarrow>
          (case node_at s node of
             None \<Rightarrow> Inl UndefinedBehaviour
           | Some n \<Rightarrow>
               (case data n of
                  DirectoryNode _ \<Rightarrow> Inl NotAFile
                | FileNode bytes \<Rightarrow> Inr bytes)))"

definition rm :: "FileSystem \<Rightarrow> string \<Rightarrow> bool \<Rightarrow> (error + unit) \<times> FileSystem" where
  "rm s path recursive =
     (if path = ''/'' then (Inl InvalidPath, s)
      else case resolveParentAndName s path of
        Inl e \<Rightarrow> (Inl e, s)
      | Inr (parentDir, nm) \<Rightarrow>
          (case children_at s parentDir of
             None \<Rightarrow> (Inl UndefinedBehaviour, s)
           | Some cs \<Rightarrow>
               (case map_of cs nm of
                  None \<Rightarrow> (Inl NotFound, s)
                | Some child \<Rightarrow>
                    (case node_at s child of
                       None \<Rightarrow> (Inl UndefinedBehaviour, s)
                     | Some chn \<Rightarrow>
                         if getType chn = Directory \<and> \<not> recursive \<and> children (data chn) \<noteq> []
                         then (Inl DirectoryNotEmpty, s)
                         else (Inr (), erase_child s parentDir nm)))))"

text \<open>
  \<^verbatim>\<open>_recursiveCopy(source, dest)\<close> is the loop over \<^verbatim>\<open>source->children\<close>,
  called with the entries still to visit. It may run forever, so it is a partial
  function: \<open>None\<close> is the call that does not return.
\<close>

partial_function (option) recursiveCopy_loop ::
  "FileSystem \<Rightarrow> addr \<Rightarrow> (string \<times> addr) list \<Rightarrow> (error + FileSystem) option" where
  "recursiveCopy_loop s dest entries =
     (case entries of
        [] \<Rightarrow> Some (Inr s)
      | (nm, child) # rest \<Rightarrow>
          (case node_at s child of
             None \<Rightarrow> Some (Inl UndefinedBehaviour)
           | Some chn \<Rightarrow>
               (case data chn of
                  FileNode bytes \<Rightarrow>
                    (let (newFile, s1) =
                           alloc s \<lparr>name = name chn, parent = Some dest, data = FileNode bytes\<rparr>
                     in recursiveCopy_loop (set_child s1 dest (name chn) newFile) dest rest)
                | DirectoryNode _ \<Rightarrow>
                    (let (newDir, s1) =
                           alloc s \<lparr>name = name chn, parent = Some dest, data = DirectoryNode []\<rparr>;
                         s2 = set_child s1 dest (name chn) newDir
                     in (case children_at s2 child of
                           None \<Rightarrow> Some (Inl UndefinedBehaviour)
                         | Some cs2 \<Rightarrow>
                             Option.bind (recursiveCopy_loop s2 newDir cs2)
                               (\<lambda>r. case r of
                                      Inl e \<Rightarrow> Some (Inl e)
                                    | Inr s3 \<Rightarrow> recursiveCopy_loop s3 dest rest))))))"

declare recursiveCopy_loop.simps [code]

definition cp :: "FileSystem \<Rightarrow> string \<Rightarrow> string \<Rightarrow> ((error + unit) \<times> FileSystem) option" where
  "cp s sourcePath destPath =
     (case resolvePath s sourcePath of
        Inl e \<Rightarrow> Some (Inl e, s)
      | Inr sourceNode \<Rightarrow>
          (case node_at s sourceNode of
             None \<Rightarrow> Some (Inl UndefinedBehaviour, s)
           | Some sn \<Rightarrow>
               (case resolveDestination s destPath (name sn) of
                  Inl e \<Rightarrow> Some (Inl e, s)
                | Inr (destParent, newName) \<Rightarrow>
                    (case children_at s destParent of
                       None \<Rightarrow> Some (Inl UndefinedBehaviour, s)
                     | Some dcs \<Rightarrow>
                         if map_of dcs newName \<noteq> None then Some (Inl AlreadyExists, s)
                         else
                           (case data sn of
                              FileNode bytes \<Rightarrow>
                                (let (newFile, s1) =
                                       alloc s \<lparr>name = newName, parent = Some destParent,
                                                data = FileNode bytes\<rparr>
                                 in Some (Inr (), set_child s1 destParent newName newFile))
                            | DirectoryNode _ \<Rightarrow>
                                (let (newDir, s1) =
                                       alloc s \<lparr>name = newName, parent = Some destParent,
                                                data = DirectoryNode []\<rparr>;
                                     s2 = set_child s1 destParent newName newDir
                                 in (case children_at s2 sourceNode of
                                       None \<Rightarrow> Some (Inl UndefinedBehaviour, s2)
                                     | Some cs \<Rightarrow>
                                         Option.bind (recursiveCopy_loop s2 newDir cs)
                                           (\<lambda>r. case r of
                                                  Inl e \<Rightarrow> Some (Inl e, s2)
                                                | Inr s3 \<Rightarrow> Some (Inr (), s3)))))))))"

text \<open>
  The cycle check of \<^verbatim>\<open>mv\<close>: \<^verbatim>\<open>while (tempParent)\<close> walks the parent
  pointers from the new parent and answers whether it meets the source node.
\<close>

partial_function (option) cycle_loop ::
  "FileSystem \<Rightarrow> addr \<Rightarrow> addr option \<Rightarrow> (error + bool) option" where
  "cycle_loop s sourceNode tempParent =
     (case tempParent of
        None \<Rightarrow> Some (Inr False)
      | Some t \<Rightarrow>
          if t = sourceNode then Some (Inr True)
          else (case node_at s t of
                  None \<Rightarrow> Some (Inl UndefinedBehaviour)
                | Some tn \<Rightarrow> cycle_loop s sourceNode (parent tn)))"

declare cycle_loop.simps [code]

text \<open>\<^verbatim>\<open>sourceNode->parent = newParent; sourceNode->name = newName;\<close>\<close>

definition set_parent_name :: "FileSystem \<Rightarrow> addr \<Rightarrow> addr \<Rightarrow> string \<Rightarrow> FileSystem" where
  "set_parent_name s a newParent newName =
     (case node_at s a of
        None \<Rightarrow> s
      | Some n \<Rightarrow> put_node s a (n\<lparr>parent := Some newParent, name := newName\<rparr>))"

definition mv :: "FileSystem \<Rightarrow> string \<Rightarrow> string \<Rightarrow> ((error + unit) \<times> FileSystem) option" where
  "mv s sourcePath destPath =
     (if sourcePath = ''/'' then Some (Inl InvalidPath, s)
      else case resolvePath s sourcePath of
        Inl e \<Rightarrow> Some (Inl e, s)
      | Inr sourceNode \<Rightarrow>
          (case node_at s sourceNode of
             None \<Rightarrow> Some (Inl UndefinedBehaviour, s)
           | Some sn \<Rightarrow>
               (case parent sn of
                  None \<Rightarrow> Some (Inl InternalError, s)
                | Some oldParent \<Rightarrow>
                    (case resolveDestination s destPath (name sn) of
                       Inl e \<Rightarrow> Some (Inl e, s)
                     | Inr (newParent, newName) \<Rightarrow>
                         Option.bind (cycle_loop s sourceNode (Some newParent))
                           (\<lambda>c. case c of
                                  Inl e \<Rightarrow> Some (Inl e, s)
                                | Inr True \<Rightarrow> Some (Inl CyclicMove, s)
                                | Inr False \<Rightarrow>
                                    (case children_at s oldParent of
                                       None \<Rightarrow> Some (Inl UndefinedBehaviour, s)
                                     | Some _ \<Rightarrow>
                                         (let s1 = erase_child s oldParent (name sn);
                                              s2 = set_parent_name s1 sourceNode newParent newName;
                                              s3 = set_child s2 newParent newName sourceNode
                                          in Some (Inr (), s3))))))))"

text \<open>
  \<^verbatim>\<open>ls\<close>: one entry per child, in the iteration order of the map, then
  \<^verbatim>\<open>std::sort\<close> on the entries (strings compare lexicographically, byte by byte).
\<close>

fun ls_loop :: "FileSystem \<Rightarrow> string list \<Rightarrow> (string \<times> addr) list \<Rightarrow> error + string list" where
  "ls_loop s entries [] = Inr entries"
| "ls_loop s entries ((nm, child) # rest) =
     (case node_at s child of
        None \<Rightarrow> Inl UndefinedBehaviour
      | Some chn \<Rightarrow>
          ls_loop s (entries @ [nm @ (if getType chn = Directory then ''/'' else [])]) rest)"

definition ls :: "FileSystem \<Rightarrow> string \<Rightarrow> error + string list" where
  "ls s path =
     (case resolvePath s path of
        Inl e \<Rightarrow> Inl e
      | Inr node \<Rightarrow>
          (case node_at s node of
             None \<Rightarrow> Inl UndefinedBehaviour
           | Some n \<Rightarrow>
               (case data n of
                  FileNode _ \<Rightarrow> Inl NotADirectory
                | DirectoryNode cs \<Rightarrow>
                    (case ls_loop s [] cs of
                       Inl e \<Rightarrow> Inl e
                     | Inr entries \<Rightarrow> Inr (sort entries)))))"

text \<open>
  \<^verbatim>\<open>exists\<close>: \<^verbatim>\<open>catch (...)\<close> turns every exception into \<^verbatim>\<open>false\<close>.
\<close>

definition exists_fs :: "FileSystem \<Rightarrow> string \<Rightarrow> error + bool" where
  "exists_fs s path =
     (case resolvePath s path of
        Inr _ \<Rightarrow> Inr True
      | Inl e \<Rightarrow> if e = UndefinedBehaviour then Inl UndefinedBehaviour else Inr False)"

definition getNodeType :: "FileSystem \<Rightarrow> string \<Rightarrow> error + NodeType" where
  "getNodeType s path =
     (case resolvePath s path of
        Inl e \<Rightarrow> Inl e
      | Inr node \<Rightarrow>
          (case node_at s node of
             None \<Rightarrow> Inl UndefinedBehaviour
           | Some n \<Rightarrow> Inr (getType n)))"

text \<open>
  \<^verbatim>\<open>DirectoryNode::size\<close> is the loop over the children with the running total;
  a child that is a directory is a nested call with total 0. The counter
  \<^verbatim>\<open>size_t\<close> is a natural number here: the bytes counted are all held in memory, so
  their number is below the range of \<^verbatim>\<open>size_t\<close>.
\<close>

partial_function (option) size_loop ::
  "FileSystem \<Rightarrow> nat \<Rightarrow> (string \<times> addr) list \<Rightarrow> (error + nat) option" where
  "size_loop s total_size entries =
     (case entries of
        [] \<Rightarrow> Some (Inr total_size)
      | (nm, child) # rest \<Rightarrow>
          (case node_at s child of
             None \<Rightarrow> Some (Inl UndefinedBehaviour)
           | Some chn \<Rightarrow>
               (case data chn of
                  FileNode bytes \<Rightarrow> size_loop s (total_size + length bytes) rest
                | DirectoryNode cs \<Rightarrow>
                    Option.bind (size_loop s 0 cs)
                      (\<lambda>r. case r of
                             Inl e \<Rightarrow> Some (Inl e)
                           | Inr v \<Rightarrow> size_loop s (total_size + v) rest))))"

declare size_loop.simps [code]

text \<open>\<^verbatim>\<open>node->size()\<close>, the virtual call.\<close>

definition node_size :: "FileSystem \<Rightarrow> addr \<Rightarrow> (error + nat) option" where
  "node_size s a =
     (case node_at s a of
        None \<Rightarrow> Some (Inl UndefinedBehaviour)
      | Some n \<Rightarrow>
          (case data n of
             FileNode bytes \<Rightarrow> Some (Inr (length bytes))
           | DirectoryNode cs \<Rightarrow> size_loop s 0 cs))"

definition size_fs :: "FileSystem \<Rightarrow> string \<Rightarrow> (error + nat) option" where
  "size_fs s path =
     (case resolvePath s path of
        Inl e \<Rightarrow> Some (Inl e)
      | Inr node \<Rightarrow> node_size s node)"

section \<open>Example stores\<close>

text \<open>
  Each example is the store that a fresh file system holds after the calls listed.
  \<open>fs_dest\<close>: \<^verbatim>\<open>touch("/f"); mkdir("/d"); touch("/d/f")\<close>.
\<close>

definition fs_dest :: FileSystem where
  "fs_dest = snd (touch (snd (mkdir (snd (touch new_fs ''/f'')) ''/d'')) ''/d/f'')"

text \<open>
  \<open>fs_ls\<close>: \<^verbatim>\<open>mkdir("/a"); writeFile("/a.txt", "x")\<close>.
\<close>

definition fs_ls :: FileSystem where
  "fs_ls = snd (writeFile (snd (mkdir new_fs ''/a'')) ''/a.txt'' ''x'')"

section \<open>Notions used in the statements\<close>

text \<open>
  The entries that \<^verbatim>\<open>ls\<close> collects for a list of children, before sorting: the
  name, with \<^verbatim>\<open>/\<close> appended when the child is a directory.
\<close>

definition ls_entries :: "FileSystem \<Rightarrow> (string \<times> addr) list \<Rightarrow> string list" where
  "ls_entries s cs =
     map (\<lambda>(nm, child). nm @ (if getType (heap s ! child) = Directory then ''/'' else [])) cs"

text \<open>
  \<open>mkdir_stopped s cur cs s'\<close>: the loop of \<^verbatim>\<open>mkdir\<close>, started in \<open>s\<close> at
  \<open>cur\<close>, ran without failure over a proper prefix of the components \<open>cs\<close>, left the
  store \<open>s'\<close>, and the next component names a file of the directory reached.
\<close>

definition mkdir_stopped :: "FileSystem \<Rightarrow> addr \<Rightarrow> string list \<Rightarrow> FileSystem \<Rightarrow> bool" where
  "mkdir_stopped s cur cs s' \<longleftrightarrow>
     (\<exists>pre c post d ds child chn.
        cs = pre @ c # post \<and> mkdir_loop s cur pre = (Inr d, s') \<and> c \<noteq> [] \<and>
        children_at s' d = Some ds \<and> map_of ds c = Some child \<and>
        node_at s' child = Some chn \<and> getType chn = File)"

text \<open>\<open>fs_a\<close>: \<^verbatim>\<open>mkdir("/a")\<close>.\<close>

definition fs_a :: FileSystem where
  "fs_a = snd (mkdir new_fs ''/a'')"

section \<open>Well-formed stores\<close>

text \<open>
  The stores that the operations build are trees. \<open>wf_fs\<close> states what the proofs use
  of that, for every node of the store: the root has no parent and is a directory; any
  other node has a parent, which is a directory; following the parent pointers reaches
  the root after some number of steps (\<open>climbs\<close>); and the children of a directory
  have distinct keys, each child recording this directory as its parent and its key as
  its name (the invariant \<^verbatim>\<open>parent.children[name] == self\<close> of the specification,
  read from the parent's side). \<open>wf_fs_bounded\<close> is the same with the number of nodes
  as the bound on the steps, which makes it a test that can be computed. The fresh file
  system is well-formed and every operation keeps a store well-formed (theorem
  \<open>wf_fs_invariant\<close> below), so a well-formed store is what the specification calls
  a tree state.
\<close>

fun climbs :: "FileSystem \<Rightarrow> nat \<Rightarrow> addr \<Rightarrow> bool" where
  "climbs s 0 a = (a = root s)"
| "climbs s (Suc k) a =
     (a = root s \<or>
      (case node_at s a of
         None \<Rightarrow> False
       | Some n \<Rightarrow> (case parent n of None \<Rightarrow> False | Some d \<Rightarrow> climbs s k d)))"

definition wf_node :: "FileSystem \<Rightarrow> addr \<Rightarrow> bool" where
  "wf_node s a =
     (case node_at s a of
        None \<Rightarrow> False
      | Some n \<Rightarrow>
          (if a = root s then parent n = None \<and> getType n = Directory
           else (case parent n of None \<Rightarrow> False | Some d \<Rightarrow> children_at s d \<noteq> None))
          \<and> (case data n of
                FileNode _ \<Rightarrow> True
              | DirectoryNode cs \<Rightarrow>
                  distinct (map fst cs) \<and>
                  list_all (\<lambda>(nm, c). case node_at s c of
                                        None \<Rightarrow> False
                                      | Some cn \<Rightarrow> parent cn = Some a \<and> name cn = nm) cs))"

definition wf_fs :: "FileSystem \<Rightarrow> bool" where
  "wf_fs s \<longleftrightarrow>
     root s < length (heap s) \<and> list_all (wf_node s) [0..<length (heap s)] \<and>
     (\<forall>a < length (heap s). \<exists>k. climbs s k a)"

definition wf_fs_bounded :: "FileSystem \<Rightarrow> bool" where
  "wf_fs_bounded s \<longleftrightarrow>
     root s < length (heap s) \<and>
     list_all (\<lambda>a. wf_node s a \<and> climbs s (length (heap s)) a) [0..<length (heap s)]"

text \<open>
  \<open>descends s a x\<close>: the node \<open>x\<close> is \<open>a\<close> itself or lies below \<open>a\<close>, following
  the children of directories.
\<close>

inductive descends :: "FileSystem \<Rightarrow> addr \<Rightarrow> addr \<Rightarrow> bool" for s :: FileSystem and a :: addr where
  self: "descends s a a"
| child: "descends s a d \<Longrightarrow> children_at s d = Some cs \<Longrightarrow> (nm, c) \<in> set cs \<Longrightarrow> descends s a c"

code_pred descends .

text \<open>\<open>fs_ab\<close>: \<^verbatim>\<open>mkdir("/a/b")\<close>.\<close>

definition fs_ab :: FileSystem where
  "fs_ab = snd (mkdir new_fs ''/a/b'')"

text \<open>\<open>fs_aa\<close>: \<^verbatim>\<open>mkdir("/a/a")\<close>.\<close>

definition fs_aa :: FileSystem where
  "fs_aa = snd (mkdir new_fs ''/a/a'')"

text \<open>
  \<open>fs_size\<close>: \<^verbatim>\<open>mkdir("/dir")\<close>, then a file of 10 bytes and a file of 20 bytes
  written into it.
\<close>

definition fs_size :: FileSystem where
  "fs_size = snd (writeFile (snd (writeFile (snd (mkdir new_fs ''/dir'')) ''/dir/a'' ''0123456789''))
                   ''/dir/b'' ''01234567890123456789'')"

text \<open>
  The store after \<^verbatim>\<open>writeFile\<close> has linked a new file \<open>nm\<close> into the directory
  \<open>d\<close>.
\<close>

definition with_file :: "FileSystem \<Rightarrow> addr \<Rightarrow> string \<Rightarrow> char list \<Rightarrow> FileSystem" where
  "with_file s d nm b =
     set_child (s\<lparr>heap := heap s @ [\<lparr>name = nm, parent = Some d, data = FileNode b\<rparr>]\<rparr>)
       d nm (length (heap s))"

text \<open>
  \<open>link_new s d nm dat\<close>: a node with name \<open>nm\<close> and payload \<open>dat\<close> is allocated with
  parent \<open>d\<close> and stored in \<open>d\<close>'s children under \<open>nm\<close>, as \<^verbatim>\<open>mkdir\<close>,
  \<^verbatim>\<open>touch\<close>, \<^verbatim>\<open>writeFile\<close> and the copies of \<^verbatim>\<open>cp\<close> do.
\<close>

definition link_new :: "FileSystem \<Rightarrow> addr \<Rightarrow> string \<Rightarrow> node_data \<Rightarrow> FileSystem" where
  "link_new s d nm dat =
     set_child (s\<lparr>heap := heap s @ [\<lparr>name = nm, parent = Some d, data = dat\<rparr>]\<rparr>)
       d nm (length (heap s))"

text \<open>
  \<open>relink s src np nn\<close>: the last two steps of \<^verbatim>\<open>mv\<close>, after the source has been
  erased from its old parent.
\<close>

definition relink :: "FileSystem \<Rightarrow> addr \<Rightarrow> addr \<Rightarrow> string \<Rightarrow> FileSystem" where
  "relink s src np nn = set_child (set_parent_name s src np nn) np nn src"

section \<open>Auxiliary facts\<close>

lemmas eval_defs =
  new_fs_def resolvePath_def resolveParentAndName_def resolveDestination_try_def
  resolveDestination_def skip_slash_def children_at_def node_at_def alloc_def
  set_child_def erase_child_def put_node_def set_parent_name_def getType_def
  mkdir_def touch_def writeFile_def append_fs_def cat_def rm_def ls_def exists_fs_def
  getNodeType_def node_size_def size_fs_def

lemma fs_dest_eq:
  "fs_dest = \<lparr>root = 0, heap =
     [\<lparr>name = ''/'', parent = None, data = DirectoryNode [(''f'', 1), (''d'', 2)]\<rparr>,
      \<lparr>name = ''f'', parent = Some 0, data = FileNode []\<rparr>,
      \<lparr>name = ''d'', parent = Some 0, data = DirectoryNode [(''f'', 3)]\<rparr>,
      \<lparr>name = ''f'', parent = Some 2, data = FileNode []\<rparr>]\<rparr>"
  by (simp add: fs_dest_def eval_defs)

section \<open>Destination resolution\<close>

text \<open>The exceptions that resolution can throw.\<close>

lemma resolve_loop_errors:
  "resolve_loop s cur ts = Inl e \<Longrightarrow>
   e = NotFound \<or> e = NotADirectory \<or> e = UndefinedBehaviour"
proof (induction ts arbitrary: cur)
  case Nil
  then show ?case by simp
next
  case (Cons c ts)
  consider (skip) "c = [] \<or> c = ''.''" | (up) "c = ''..''" | (down) "c \<noteq> []" "c \<noteq> ''.''" "c \<noteq> ''..''"
    by blast
  then show ?case
  proof cases
    case skip
    with Cons show ?thesis by simp
  next
    case up
    with Cons show ?thesis by (auto split: if_splits option.splits)
  next
    case down
    with Cons show ?thesis by (auto split: if_splits option.splits)
  qed
qed

lemma resolvePath_errors:
  "resolvePath s p = Inl e \<Longrightarrow>
   e = InvalidPath \<or> e = NotFound \<or> e = NotADirectory \<or> e = UndefinedBehaviour"
  by (auto simp: resolvePath_def dest: resolve_loop_errors split: if_splits)

lemma resolveParentAndName_errors:
  "resolveParentAndName s p = Inl e \<Longrightarrow>
   e = InvalidPath \<or> e = NotFound \<or> e = NotADirectory \<or> e = UndefinedBehaviour"
  by (auto simp: resolveParentAndName_def Let_def dest: resolvePath_errors
      split: if_splits option.splits sum.splits)

lemma resolveDestination_never_AlreadyExists:
  "resolveDestination s dst nm \<noteq> Inl AlreadyExists"
proof
  assume a: "resolveDestination s dst nm = Inl AlreadyExists"
  then have "resolveParentAndName s dst = Inl AlreadyExists"
    by (auto simp: resolveDestination_def split: sum.splits if_splits)
  from resolveParentAndName_errors [OF this] show False by simp
qed

text \<open>
  C1 (the code departs from the claim). The claim: when \<open>destPath\<close> resolves to a
  directory that already has a child named \<open>sourceName\<close>, or to a file,
  \<^verbatim>\<open>_resolveDestination\<close> fails with \<open>AlreadyExists\<close> and does not fall back to
  the (parent, name) reading of \<open>destPath\<close>. In the code the two
  \<^verbatim>\<open>throw\<close> statements stand inside the \<^verbatim>\<open>try\<close> block whose handler is the
  fallback. On the store \<open>fs_dest\<close> (file \<^verbatim>\<open>/f\<close>, directory \<^verbatim>\<open>/d\<close>, file
  \<^verbatim>\<open>/d/f\<close>): the block throws \<open>AlreadyExists\<close> for destination \<^verbatim>\<open>/d\<close> with
  source name \<^verbatim>\<open>f\<close>, and for destination \<^verbatim>\<open>/f\<close>; the function returns the
  root with the names \<^verbatim>\<open>d\<close> and \<^verbatim>\<open>f\<close> instead; and \<^verbatim>\<open>mv("/f", "/d")\<close>
  succeeds, after which \<^verbatim>\<open>/d\<close> is the moved file and \<^verbatim>\<open>/d/f\<close> is gone.
  And for no store, destination and source name at all does the function fail with
  \<open>AlreadyExists\<close>.
\<close>

theorem C1_resolveDestination_falls_back:
  "resolveDestination_try fs_dest ''/d'' ''f'' = Inl AlreadyExists
   \<and> resolveDestination fs_dest ''/d'' ''f'' = Inr (root fs_dest, ''d'')
   \<and> resolveDestination_try fs_dest ''/f'' ''g'' = Inl AlreadyExists
   \<and> resolveDestination fs_dest ''/f'' ''g'' = Inr (root fs_dest, ''f'')
   \<and> (case mv fs_dest ''/f'' ''/d'' of
        Some (Inr _, s') \<Rightarrow>
          getNodeType s' ''/d'' = Inr File \<and> exists_fs s' ''/d/f'' = Inr False
      | _ \<Rightarrow> False)
   \<and> resolveDestination s dst nm \<noteq> Inl AlreadyExists"
proof -
  have "resolveDestination_try fs_dest ''/d'' ''f'' = Inl AlreadyExists
   \<and> resolveDestination fs_dest ''/d'' ''f'' = Inr (root fs_dest, ''d'')
   \<and> resolveDestination_try fs_dest ''/f'' ''g'' = Inl AlreadyExists
   \<and> resolveDestination fs_dest ''/f'' ''g'' = Inr (root fs_dest, ''f'')
   \<and> (case mv fs_dest ''/f'' ''/d'' of
        Some (Inr _, s') \<Rightarrow>
          getNodeType s' ''/d'' = Inr File \<and> exists_fs s' ''/d/f'' = Inr False
      | _ \<Rightarrow> False)"
    unfolding fs_dest_eq by code_simp
  with resolveDestination_never_AlreadyExists [of s dst nm] show ?thesis by simp
qed

section \<open>Dot components\<close>

text \<open>
  C2 (the code departs from the claim). The claim: every operation reads a \<^verbatim>\<open>.\<close>
  component as "stay" and a \<^verbatim>\<open>..\<close> component as "go to the parent", and no
  operation creates a node named \<^verbatim>\<open>.\<close> or \<^verbatim>\<open>..\<close>. The loop of
  \<^verbatim>\<open>_resolvePath\<close> does so; the loop of \<^verbatim>\<open>mkdir\<close> skips the empty component
  only, and \<^verbatim>\<open>_resolveParentAndName\<close> takes the text after the last \<^verbatim>\<open>/\<close> as a
  name. On a fresh file system \<^verbatim>\<open>mkdir("/.")\<close> creates a directory named
  \<^verbatim>\<open>.\<close> under the root, \<^verbatim>\<open>mkdir("/a/..")\<close> creates \<^verbatim>\<open>a\<close> and a directory
  named \<^verbatim>\<open>..\<close> inside it, and \<^verbatim>\<open>touch("/..")\<close> creates a file named
  \<^verbatim>\<open>..\<close>; resolution of \<^verbatim>\<open>/.\<close> still answers the root.
\<close>

theorem C2_mkdir_creates_dot_nodes:
  "mkdir new_fs ''/.'' =
     (Inr (), \<lparr>root = 0, heap =
        [\<lparr>name = ''/'', parent = None, data = DirectoryNode [(''.'', 1)]\<rparr>,
         \<lparr>name = ''.'', parent = Some 0, data = DirectoryNode []\<rparr>]\<rparr>)
   \<and> mkdir new_fs ''/a/..'' =
     (Inr (), \<lparr>root = 0, heap =
        [\<lparr>name = ''/'', parent = None, data = DirectoryNode [(''a'', 1)]\<rparr>,
         \<lparr>name = ''a'', parent = Some 0, data = DirectoryNode [(''..'', 2)]\<rparr>,
         \<lparr>name = ''..'', parent = Some 1, data = DirectoryNode []\<rparr>]\<rparr>)
   \<and> touch new_fs ''/..'' =
     (Inr (), \<lparr>root = 0, heap =
        [\<lparr>name = ''/'', parent = None, data = DirectoryNode [(''..'', 1)]\<rparr>,
         \<lparr>name = ''..'', parent = Some 0, data = FileNode []\<rparr>]\<rparr>)
   \<and> resolvePath (snd (mkdir new_fs ''/.'')) ''/.'' = Inr 0"
  by (simp add: eval_defs)

section \<open>The store under allocation and update\<close>

lemma root_put_node [simp]: "root (put_node s a n) = root s"
  by (simp add: put_node_def)

lemma length_heap_put_node [simp]: "length (heap (put_node s a n)) = length (heap s)"
  by (simp add: put_node_def)

lemma node_at_put_node:
  "node_at (put_node s a n) b = (if b = a \<and> a < length (heap s) then Some n else node_at s b)"
  by (simp add: put_node_def node_at_def)

lemma root_set_child [simp]: "root (set_child s d k c) = root s"
  by (simp add: set_child_def split: option.splits node_data.splits)

lemma length_heap_set_child [simp]: "length (heap (set_child s d k c)) = length (heap s)"
  by (simp add: set_child_def split: option.splits node_data.splits)

lemma root_erase_child [simp]: "root (erase_child s d k) = root s"
  by (simp add: erase_child_def split: option.splits node_data.splits)

lemma length_heap_erase_child [simp]: "length (heap (erase_child s d k)) = length (heap s)"
  by (simp add: erase_child_def split: option.splits node_data.splits)

lemma node_at_set_child_other: "b \<noteq> d \<Longrightarrow> node_at (set_child s d k c) b = node_at s b"
  by (simp add: set_child_def node_at_put_node split: option.splits node_data.splits)

lemma node_at_erase_child_other: "b \<noteq> d \<Longrightarrow> node_at (erase_child s d k) b = node_at s b"
  by (simp add: erase_child_def node_at_put_node split: option.splits node_data.splits)

lemma node_at_SomeD: "node_at s a = Some n \<Longrightarrow> a < length (heap s) \<and> n = heap s ! a"
  by (simp add: node_at_def split: if_splits)

lemma children_at_SomeD:
  "children_at s a = Some cs \<Longrightarrow> \<exists>n. node_at s a = Some n \<and> data n = DirectoryNode cs"
  by (simp add: children_at_def split: option.splits node_data.splits)

lemma children_at_valid: "children_at s a = Some cs \<Longrightarrow> a < length (heap s)"
  by (auto dest!: children_at_SomeD node_at_SomeD)

lemma children_at_set_child:
  "children_at (set_child s d k c) b =
     (if b = d then map_option (AList.update k c) (children_at s d) else children_at s b)"
  by (auto simp: children_at_def set_child_def node_at_put_node dest: node_at_SomeD
      split: option.splits node_data.splits)

lemma children_at_erase_child:
  "children_at (erase_child s d k) b =
     (if b = d then map_option (AList.delete k) (children_at s d) else children_at s b)"
  by (auto simp: children_at_def erase_child_def node_at_put_node dest: node_at_SomeD
      split: option.splits node_data.splits)

lemma node_at_set_child_same:
  "node_at s d = Some n \<Longrightarrow>
   node_at (set_child s d k c) d =
     Some (case data n of FileNode _ \<Rightarrow> n
           | DirectoryNode cs \<Rightarrow> n\<lparr>data := DirectoryNode (AList.update k c cs)\<rparr>)"
  by (auto simp: set_child_def node_at_put_node dest: node_at_SomeD split: node_data.splits)

lemma node_at_erase_child_same:
  "node_at s d = Some n \<Longrightarrow>
   node_at (erase_child s d k) d =
     Some (case data n of FileNode _ \<Rightarrow> n
           | DirectoryNode cs \<Rightarrow> n\<lparr>data := DirectoryNode (AList.delete k cs)\<rparr>)"
  by (auto simp: erase_child_def node_at_put_node dest: node_at_SomeD split: node_data.splits)

lemma alloc_eq: "alloc s n = (a, s1) \<longleftrightarrow> a = length (heap s) \<and> s1 = s\<lparr>heap := heap s @ [n]\<rparr>"
  by (auto simp: alloc_def)

lemma node_at_alloc:
  "node_at (s\<lparr>heap := heap s @ [n]\<rparr>) b = (if b = length (heap s) then Some n else node_at s b)"
  by (simp add: node_at_def nth_append)

lemma children_at_alloc:
  "children_at (s\<lparr>heap := heap s @ [n]\<rparr>) b =
     (if b = length (heap s)
      then (case data n of FileNode _ \<Rightarrow> None | DirectoryNode cs \<Rightarrow> Some cs)
      else children_at s b)"
  by (simp add: children_at_def node_at_alloc)

section \<open>Failure leaves the store\<close>

lemma touch_fail: "touch s p = (Inl e, s') \<Longrightarrow> s' = s"
  by (simp add: touch_def Let_def split: sum.splits option.splits prod.splits if_splits)

lemma writeFile_fail: "writeFile s p b = (Inl e, s') \<Longrightarrow> s' = s"
  by (simp add: writeFile_def Let_def split: sum.splits option.splits prod.splits if_splits bool.splits)

lemma append_fail: "append_fs s p b = (Inl e, s') \<Longrightarrow> s' = s"
  by (simp add: append_fs_def split: sum.splits option.splits node_data.splits)

lemma rm_fail: "rm s p r = (Inl e, s') \<Longrightarrow> s' = s"
  by (simp add: rm_def split: sum.splits option.splits prod.splits if_splits)

lemma mv_fail: "mv s p q = Some (Inl e, s') \<Longrightarrow> s' = s"
  by (simp add: mv_def Let_def split: sum.splits option.splits prod.splits if_splits bool.splits Option.bind_splits)

lemma recursiveCopy_loop_Inl:
  assumes "recursiveCopy_loop s dest entries = Some y"
  shows "\<forall>e. y = Inl e \<longrightarrow> e = UndefinedBehaviour"
proof (rule recursiveCopy_loop.raw_induct [OF _ assms], goal_cases)
  case (1 rcl s dest entries y)
  show ?case
  proof (cases entries)
    case Nil
    with 1(2) show ?thesis by auto
  next
    case (Cons x rest)
    obtain nm child where x: "x = (nm, child)" by (cases x)
    show ?thesis
    proof (cases "node_at s child")
      case None
      with 1(2) Cons x show ?thesis by auto
    next
      case (Some chn)
      show ?thesis
      proof (cases "data chn")
        case (FileNode bytes)
        with 1(2) Cons x Some
        have "\<exists>s2. rcl s2 dest rest = Some y"
          by (simp add: Let_def split: prod.splits) blast
        with 1(1) show ?thesis by blast
      next
        case (DirectoryNode cs)
        with 1(2) Cons x Some
        have "y = Inl UndefinedBehaviour \<or> (\<exists>s3. rcl s3 dest rest = Some y)
              \<or> (\<exists>s2 d2 cs2 e. rcl s2 d2 cs2 = Some (Inl e) \<and> y = Inl e)"
          by (auto simp: Let_def split: prod.splits option.splits Option.bind_splits sum.splits)
        with 1(1) show ?thesis by blast
      qed
    qed
  qed
qed

lemma cp_fail: "cp s p q = Some (Inl e, s') \<Longrightarrow> e \<noteq> UndefinedBehaviour \<Longrightarrow> s' = s"
  by (auto simp: cp_def Let_def split: sum.splits option.splits prod.splits if_splits node_data.splits Option.bind_splits
      dest: recursiveCopy_loop_Inl)


lemma mkdir_stopped_Cons:
  assumes "mkdir_stopped s2 d2 rest s'"
    and "\<And>pre. mkdir_loop s cur (c # pre) = mkdir_loop s2 d2 pre"
  shows "mkdir_stopped s cur (c # rest) s'"
proof -
  from assms(1) obtain pre c' post d ds child chn where
    h: "rest = pre @ c' # post" "mkdir_loop s2 d2 pre = (Inr d, s')" "c' \<noteq> []"
       "children_at s' d = Some ds" "map_of ds c' = Some child"
       "node_at s' child = Some chn" "getType chn = File"
    unfolding mkdir_stopped_def by blast
  from h(1) have 1: "c # rest = (c # pre) @ c' # post" by simp
  from h(2) assms(2) have 2: "mkdir_loop s cur (c # pre) = (Inr d, s')" by simp
  from 1 2 h(3-7) show ?thesis unfolding mkdir_stopped_def by blast
qed

lemma NodeType_not_Directory: "t \<noteq> Directory \<longleftrightarrow> t = File"
  by (cases t) simp_all

lemma mkdir_loop_fail:
  "mkdir_loop s cur cs = (Inl e, s') \<Longrightarrow> e \<noteq> UndefinedBehaviour \<Longrightarrow>
     e = NotADirectory \<and> mkdir_stopped s cur cs s'"
proof (induction s cur cs rule: mkdir_loop.induct)
  case (1 s current)
  then show ?case by simp
next
  case (2 s current component rest)
  show ?case
  proof (cases "component = []")
    case True
    with 2 have "e = NotADirectory \<and> mkdir_stopped s current rest s'" by simp
    moreover have "\<And>pre. mkdir_loop s current (component # pre) = mkdir_loop s current pre"
      using True by simp
    ultimately show ?thesis by (blast intro: mkdir_stopped_Cons)
  next
    case False
    show ?thesis
    proof (cases "children_at s current")
      case None
      with 2(4,5) False show ?thesis by simp
    next
      case (Some cs)
      show ?thesis
      proof (cases "map_of cs component")
        case None
        obtain newDir s1 where al: "alloc s \<lparr>name = component, parent = Some current, data = DirectoryNode []\<rparr> = (newDir, s1)"
          by (cases "alloc s \<lparr>name = component, parent = Some current, data = DirectoryNode []\<rparr>")
        let ?s2 = "set_child s1 current component newDir"
        have step: "\<And>pre. mkdir_loop s current (component # pre) = mkdir_loop ?s2 newDir pre"
          using False Some None al by simp
        from 2(4) have "mkdir_loop ?s2 newDir rest = (Inl e, s')" by (simp only: step)
        with 2(2) [OF False Some None al [symmetric] refl] 2(5)
        have "e = NotADirectory \<and> mkdir_stopped ?s2 newDir rest s'" by simp
        with step show ?thesis by (blast intro: mkdir_stopped_Cons)
      next
        case (Some child)
        note ch = this
        show ?thesis
        proof (cases "node_at s child")
          case None
          with 2(4,5) False \<open>children_at s current = Some cs\<close> ch show ?thesis by simp
        next
          case (Some chn)
          show ?thesis
          proof (cases "getType chn = Directory")
            case True
            have step: "\<And>pre. mkdir_loop s current (component # pre) = mkdir_loop s child pre"
              using False \<open>children_at s current = Some cs\<close> ch Some True by simp
            from 2(4) have "mkdir_loop s child rest = (Inl e, s')" by (simp only: step)
            with 2(3) [OF False \<open>children_at s current = Some cs\<close> ch Some] True 2(5)
            have "e = NotADirectory \<and> mkdir_stopped s child rest s'" by simp
            with step show ?thesis by (blast intro: mkdir_stopped_Cons)
          next
            case nd: False
            with 2(4) False \<open>children_at s current = Some cs\<close> ch Some
            have e: "e = NotADirectory" and s': "s' = s" by simp_all
            from nd have f: "getType chn = File" by (simp add: NodeType_not_Directory)
            have "mkdir_stopped s current (component # rest) s"
              unfolding mkdir_stopped_def
              using False \<open>children_at s current = Some cs\<close> ch Some f
              by (intro exI [of _ "[]"] exI [of _ component] exI [of _ rest] exI [of _ current]
                    exI [of _ cs] exI [of _ child] exI [of _ chn]) simp
            with e s' show ?thesis by simp
          qed
        qed
      qed
    qed
  qed
qed


lemma mkdir_loop_empty_dir:
  "children_at s cur = Some [] \<Longrightarrow> \<exists>d s'. mkdir_loop s cur cs = (Inr d, s')"
proof (induction cs arbitrary: s cur)
  case Nil
  show ?case by simp
next
  case (Cons c cs)
  show ?case
  proof (cases "c = []")
    case True
    with Cons show ?thesis by simp
  next
    case False
    let ?n = "\<lparr>name = c, parent = Some cur, data = DirectoryNode []\<rparr>"
    let ?s1 = "s\<lparr>heap := heap s @ [?n]\<rparr>"
    let ?s2 = "set_child ?s1 cur c (length (heap s))"
    from Cons.prems have "cur \<noteq> length (heap s)" by (auto dest: children_at_valid)
    then have "children_at ?s2 (length (heap s)) = Some []"
      by (simp add: children_at_set_child children_at_alloc)
    from Cons.IH [OF this] obtain d s' where "mkdir_loop ?s2 (length (heap s)) cs = (Inr d, s')"
      by blast
    with False Cons.prems show ?thesis by (simp add: alloc_def)
  qed
qed

lemma mkdir_loop_fail_unchanged:
  "mkdir_loop s cur cs = (Inl e, s') \<Longrightarrow> e \<noteq> UndefinedBehaviour \<Longrightarrow> s' = s"
proof (induction s cur cs rule: mkdir_loop.induct)
  case (1 s current)
  then show ?case by simp
next
  case (2 s current component rest)
  show ?case
  proof (cases "component = []")
    case True
    with 2 show ?thesis by simp
  next
    case False
    show ?thesis
    proof (cases "children_at s current")
      case None
      with 2(4,5) False show ?thesis by simp
    next
      case (Some cs)
      show ?thesis
      proof (cases "map_of cs component")
        case None
        let ?n = "\<lparr>name = component, parent = Some current, data = DirectoryNode []\<rparr>"
        let ?s1 = "s\<lparr>heap := heap s @ [?n]\<rparr>"
        let ?s2 = "set_child ?s1 current component (length (heap s))"
        from Some have "current \<noteq> length (heap s)" by (auto dest: children_at_valid)
        then have "children_at ?s2 (length (heap s)) = Some []"
          by (simp add: children_at_set_child children_at_alloc)
        from mkdir_loop_empty_dir [OF this]
        obtain d s'' where "mkdir_loop ?s2 (length (heap s)) rest = (Inr d, s'')" by blast
        with False Some None have "mkdir_loop s current (component # rest) = (Inr d, s'')"
          by (simp add: alloc_def)
        with 2(4) show ?thesis by simp
      next
        case (Some child)
        note ch = this
        show ?thesis
        proof (cases "node_at s child")
          case None
          with 2(4,5) False \<open>children_at s current = Some cs\<close> ch show ?thesis by simp
        next
          case (Some chn)
          show ?thesis
          proof (cases "getType chn = Directory")
            case True
            have step: "mkdir_loop s current (component # rest) = mkdir_loop s child rest"
              using False \<open>children_at s current = Some cs\<close> ch Some True by simp
            from 2(4) have "mkdir_loop s child rest = (Inl e, s')" by (simp only: step)
            with 2(3) [OF False \<open>children_at s current = Some cs\<close> ch Some] True 2(5)
            show ?thesis by simp
          next
            case nd: False
            with 2(4) False \<open>children_at s current = Some cs\<close> ch Some
            show ?thesis by simp
          qed
        qed
      qed
    qed
  qed
qed

lemma mkdir_fail:
  assumes "mkdir s p = (Inl e, s')" and "e \<noteq> UndefinedBehaviour"
  shows "e = NotADirectory \<and> mkdir_stopped s (root s) (getlines (skip_slash p)) s' \<and> s' = s"
proof -
  from assms(1) have "mkdir_loop s (root s) (getlines (skip_slash p)) = (Inl e, s')"
    by (simp add: mkdir_def split: if_splits prod.splits sum.splits)
  with assms(2) mkdir_loop_fail mkdir_loop_fail_unchanged show ?thesis by blast
qed

text \<open>
  C5. Every mutating operation that fails with an exception leaves the store exactly as
  it was: \<^verbatim>\<open>touch\<close>, \<^verbatim>\<open>writeFile\<close>, \<^verbatim>\<open>append\<close>, \<^verbatim>\<open>rm\<close>,
  \<^verbatim>\<open>cp\<close> and \<^verbatim>\<open>mv\<close> throw before their first write. For \<^verbatim>\<open>mkdir\<close> the
  store at the throw is the store after the loop has run over the components before the
  failing one, so directories created on the way would be all that remains; and in fact
  none remains, since a directory that the loop creates is empty and the loop cannot
  fail below it: the store is unchanged as well.
\<close>

theorem C5_failure_leaves_store:
  "(touch s p = (Inl e, s') \<longrightarrow> s' = s)
   \<and> (writeFile s p bytes = (Inl e, s') \<longrightarrow> s' = s)
   \<and> (append_fs s p bytes = (Inl e, s') \<longrightarrow> s' = s)
   \<and> (rm s p recursive = (Inl e, s') \<longrightarrow> s' = s)
   \<and> (cp s p q = Some (Inl e, s') \<and> e \<noteq> UndefinedBehaviour \<longrightarrow> s' = s)
   \<and> (mv s p q = Some (Inl e, s') \<longrightarrow> s' = s)
   \<and> (mkdir s p = (Inl e, s') \<and> e \<noteq> UndefinedBehaviour \<longrightarrow>
        e = NotADirectory \<and> mkdir_stopped s (root s) (getlines (skip_slash p)) s' \<and> s' = s)"
proof -
  have 1: "touch s p = (Inl e, s') \<longrightarrow> s' = s"
    by (rule impI) (rule touch_fail)
  have 2: "writeFile s p bytes = (Inl e, s') \<longrightarrow> s' = s"
    by (rule impI) (rule writeFile_fail)
  have 3: "append_fs s p bytes = (Inl e, s') \<longrightarrow> s' = s"
    by (rule impI) (rule append_fail)
  have 4: "rm s p recursive = (Inl e, s') \<longrightarrow> s' = s"
    by (rule impI) (rule rm_fail)
  have 5: "cp s p q = Some (Inl e, s') \<and> e \<noteq> UndefinedBehaviour \<longrightarrow> s' = s"
  proof
    assume a: "cp s p q = Some (Inl e, s') \<and> e \<noteq> UndefinedBehaviour"
    show "s' = s" by (rule cp_fail [OF a [THEN conjunct1] a [THEN conjunct2]])
  qed
  have 6: "mv s p q = Some (Inl e, s') \<longrightarrow> s' = s"
    by (rule impI) (rule mv_fail)
  have 7: "mkdir s p = (Inl e, s') \<and> e \<noteq> UndefinedBehaviour \<longrightarrow>
        e = NotADirectory \<and> mkdir_stopped s (root s) (getlines (skip_slash p)) s' \<and> s' = s"
  proof
    assume a: "mkdir s p = (Inl e, s') \<and> e \<noteq> UndefinedBehaviour"
    show "e = NotADirectory \<and> mkdir_stopped s (root s) (getlines (skip_slash p)) s' \<and> s' = s"
      by (rule mkdir_fail [OF a [THEN conjunct1] a [THEN conjunct2]])
  qed
  from 1 2 3 4 5 6 7 show ?thesis by (intro conjI)
qed


text \<open>
  The witness: on \<open>fs_dest\<close> (file \<^verbatim>\<open>/f\<close>, directory \<^verbatim>\<open>/d\<close>, file
  \<^verbatim>\<open>/d/f\<close>) each operation fails, and the theorem gives the store it leaves.
\<close>

theorem C5_failure_leaves_store_witness:
  "touch fs_dest ''/d'' = (Inl NotAFile, fs_dest)
   \<and> writeFile fs_dest ''/d'' ''x'' = (Inl IsADirectory, fs_dest)
   \<and> append_fs fs_dest ''/d'' ''x'' = (Inl NotAFile, fs_dest)
   \<and> rm fs_dest ''/d'' False = (Inl DirectoryNotEmpty, fs_dest)
   \<and> cp fs_dest ''/f'' ''/d'' = Some (Inl AlreadyExists, fs_dest)
   \<and> mv fs_dest ''/d'' ''/d'' = Some (Inl CyclicMove, fs_dest)
   \<and> mkdir fs_dest ''/d/f/x'' = (Inl NotADirectory, fs_dest)
   \<and> mkdir_stopped fs_dest (root fs_dest) (getlines (skip_slash ''/d/f/x'')) fs_dest"
proof -
  have a1: "fst (touch fs_dest ''/d'') = Inl NotAFile"
    unfolding fs_dest_eq by code_simp
  have a2: "fst (writeFile fs_dest ''/d'' ''x'') = Inl IsADirectory"
    unfolding fs_dest_eq by code_simp
  have a3: "fst (append_fs fs_dest ''/d'' ''x'') = Inl NotAFile"
    unfolding fs_dest_eq by code_simp
  have a4: "fst (rm fs_dest ''/d'' False) = Inl DirectoryNotEmpty"
    unfolding fs_dest_eq by code_simp
  have a5: "map_option fst (cp fs_dest ''/f'' ''/d'') = Some (Inl AlreadyExists)"
    unfolding fs_dest_eq by code_simp
  have a6: "map_option fst (mv fs_dest ''/d'' ''/d'') = Some (Inl CyclicMove)"
    unfolding fs_dest_eq by code_simp
  have a7: "fst (mkdir fs_dest ''/d/f/x'') = Inl NotADirectory"
    unfolding fs_dest_eq by code_simp
  from a1 have b1: "touch fs_dest ''/d'' = (Inl NotAFile, snd (touch fs_dest ''/d''))"
    by (metis prod.collapse)
  from a2 have b2: "writeFile fs_dest ''/d'' ''x'' = (Inl IsADirectory, snd (writeFile fs_dest ''/d'' ''x''))"
    by (metis prod.collapse)
  from a3 have b3: "append_fs fs_dest ''/d'' ''x'' = (Inl NotAFile, snd (append_fs fs_dest ''/d'' ''x''))"
    by (metis prod.collapse)
  from a4 have b4: "rm fs_dest ''/d'' False = (Inl DirectoryNotEmpty, snd (rm fs_dest ''/d'' False))"
    by (metis prod.collapse)
  from a5 have b5: "cp fs_dest ''/f'' ''/d'' = Some (Inl AlreadyExists, snd (the (cp fs_dest ''/f'' ''/d'')))"
    by (cases "cp fs_dest ''/f'' ''/d''") auto
  from a6 have b6: "mv fs_dest ''/d'' ''/d'' = Some (Inl CyclicMove, snd (the (mv fs_dest ''/d'' ''/d'')))"
    by (cases "mv fs_dest ''/d'' ''/d''") auto
  from a7 have b7: "mkdir fs_dest ''/d/f/x'' = (Inl NotADirectory, snd (mkdir fs_dest ''/d/f/x''))"
    by (metis prod.collapse)
  note t = C5_failure_leaves_store [where s = fs_dest]
  have c1: "snd (touch fs_dest ''/d'') = fs_dest"
    using t [where p = "''/d''" and e = NotAFile, THEN conjunct1] b1 by simp
  have c2: "snd (writeFile fs_dest ''/d'' ''x'') = fs_dest"
    using t [where p = "''/d''" and bytes = "''x''" and e = IsADirectory,
        THEN conjunct2, THEN conjunct1] b2 by simp
  have c3: "snd (append_fs fs_dest ''/d'' ''x'') = fs_dest"
    using t [where p = "''/d''" and bytes = "''x''" and e = NotAFile,
        THEN conjunct2, THEN conjunct2, THEN conjunct1] b3 by simp
  have c4: "snd (rm fs_dest ''/d'' False) = fs_dest"
    using t [where p = "''/d''" and recursive = False and e = DirectoryNotEmpty,
        THEN conjunct2, THEN conjunct2, THEN conjunct2, THEN conjunct1] b4 by simp
  have c5: "snd (the (cp fs_dest ''/f'' ''/d'')) = fs_dest"
    using t [where p = "''/f''" and q = "''/d''" and e = AlreadyExists,
        THEN conjunct2, THEN conjunct2, THEN conjunct2, THEN conjunct2, THEN conjunct1] b5
    by simp
  have c6: "snd (the (mv fs_dest ''/d'' ''/d'')) = fs_dest"
    using t [where p = "''/d''" and q = "''/d''" and e = CyclicMove,
        THEN conjunct2, THEN conjunct2, THEN conjunct2, THEN conjunct2, THEN conjunct2,
        THEN conjunct1] b6
    by simp
  have c7: "mkdir_stopped fs_dest (root fs_dest) (getlines (skip_slash ''/d/f/x''))
              (snd (mkdir fs_dest ''/d/f/x'')) \<and> snd (mkdir fs_dest ''/d/f/x'') = fs_dest"
    using t [where p = "''/d/f/x''" and e = NotADirectory,
        THEN conjunct2, THEN conjunct2, THEN conjunct2, THEN conjunct2, THEN conjunct2,
        THEN conjunct2] b7
    by simp
  from b1 b2 b3 b4 b5 b6 b7 c1 c2 c3 c4 c5 c6 c7 show ?thesis by simp
qed

section \<open>Copying a directory into itself\<close>

text \<open>
  A call of the copy loop whose next entry is the destination directory itself, the
  destination being empty, does not return: it creates a directory inside the
  destination and calls itself in the same situation one level down.
\<close>

lemma recursiveCopy_loop_returns:
  assumes "recursiveCopy_loop s dest entries = Some y"
  shows "\<not> (\<exists>nm rest. entries = (nm, dest) # rest \<and> children_at s dest = Some [])"
proof (rule recursiveCopy_loop.raw_induct
      [where P = "\<lambda>s dest entries y. \<not> (\<exists>nm rest. entries = (nm, dest) # rest \<and> children_at s dest = Some [])",
        OF _ assms], goal_cases)
    case (1 rcl s dest entries y)
    show ?case
    proof
      assume "\<exists>nm rest. entries = (nm, dest) # rest \<and> children_at s dest = Some []"
      then obtain nm rest where e: "entries = (nm, dest) # rest" and c: "children_at s dest = Some []"
        by blast
      from c obtain chn where n: "node_at s dest = Some chn" and d: "data chn = DirectoryNode []"
        by (auto dest: children_at_SomeD)
      let ?new = "\<lparr>name = name chn, parent = Some dest, data = DirectoryNode []\<rparr>"
      let ?s1 = "s\<lparr>heap := heap s @ [?new]\<rparr>"
      let ?newDir = "length (heap s)"
      let ?s2 = "set_child ?s1 dest (name chn) ?newDir"
      from c have ne: "dest \<noteq> ?newDir" by (auto dest: children_at_valid)
      have c1: "children_at ?s1 dest = Some []"
        using c ne by (simp add: children_at_alloc)
      have c2: "children_at ?s2 dest = Some [(name chn, ?newDir)]"
        using c1 by (simp add: children_at_set_child)
      have c3: "children_at ?s2 ?newDir = Some []"
        using ne by (simp add: children_at_set_child children_at_alloc)
      from 1(2) e n d c2
      have "Option.bind (rcl ?s2 ?newDir [(name chn, ?newDir)])
              (\<lambda>r. case r of Inl e \<Rightarrow> Some (Inl e) | Inr s3 \<Rightarrow> rcl s3 dest rest) = Some y"
        by (simp add: alloc_def)
      then obtain r where "rcl ?s2 ?newDir [(name chn, ?newDir)] = Some r"
        by (auto simp: Option.bind_eq_Some_conv)
      from 1(1) [OF this] c3 show False by blast
    qed
qed

lemma recursiveCopy_loop_into_itself:
  assumes "children_at s dest = Some []"
  shows "recursiveCopy_loop s dest ((nm, dest) # rest) = None"
proof (cases "recursiveCopy_loop s dest ((nm, dest) # rest)")
  case None
  then show ?thesis .
next
  case (Some y)
  from recursiveCopy_loop_returns [OF Some] assms show ?thesis by blast
qed

text \<open>
  C8 (the code departs from the claim). The claim: \<^verbatim>\<open>cp\<close> always terminates, also
  when the destination is the source directory or lies inside it. \<^verbatim>\<open>cp\<close> links
  the new directory into its parent before it copies the children, and
  \<^verbatim>\<open>_recursiveCopy\<close> reads the children of the source while it runs; unlike
  \<^verbatim>\<open>mv\<close>, \<^verbatim>\<open>cp\<close> has no check that the destination is outside the source. With an
  empty directory \<^verbatim>\<open>/a\<close>, \<^verbatim>\<open>cp("/a", "/a/b")\<close> and \<^verbatim>\<open>cp("/a", "/a")\<close> do
  not return, nor does \<^verbatim>\<open>cp("/", "/x")\<close> on a fresh file system; \<^verbatim>\<open>mv\<close> with
  the same arguments throws \<open>CyclicMove\<close>, and a copy to a place outside the source
  returns.
\<close>

theorem C8_cp_into_itself_diverges:
  "cp fs_a ''/a'' ''/a/b'' = None
   \<and> cp fs_a ''/a'' ''/a'' = None
   \<and> cp new_fs ''/'' ''/x'' = None
   \<and> mv fs_a ''/a'' ''/a/b'' = Some (Inl CyclicMove, fs_a)
   \<and> map_option fst (cp fs_a ''/a'' ''/c'') = Some (Inr ())"
proof -
  have 1: "cp fs_a ''/a'' ''/a/b'' = None"
    by (simp add: fs_a_def cp_def eval_defs recursiveCopy_loop_into_itself)
  have 2: "cp fs_a ''/a'' ''/a'' = None"
    by (simp add: fs_a_def cp_def eval_defs recursiveCopy_loop_into_itself)
  have 3: "cp new_fs ''/'' ''/x'' = None"
    by (simp add: cp_def eval_defs recursiveCopy_loop_into_itself)
  have 4: "mv fs_a ''/a'' ''/a/b'' = Some (Inl CyclicMove, fs_a)"
    by code_simp
  have 5: "map_option fst (cp fs_a ''/a'' ''/c'') = Some (Inr ())"
    by code_simp
  from 1 2 3 4 5 show ?thesis by (intro conjI)
qed

section \<open>Writing and reading back\<close>

text \<open>
  C6 (the code departs from the claim). The claim: whenever \<^verbatim>\<open>writeFile(p, b)\<close>
  succeeds, \<^verbatim>\<open>cat(p)\<close> returns \<open>b\<close>. \<^verbatim>\<open>writeFile\<close> takes the text after the last
  \<^verbatim>\<open>/\<close> of \<open>p\<close> as the file's name, also when it is \<^verbatim>\<open>.\<close> or \<^verbatim>\<open>..\<close>, while
  \<^verbatim>\<open>cat\<close> resolves \<open>p\<close> with \<^verbatim>\<open>.\<close> and \<^verbatim>\<open>..\<close> read as steps. On a fresh
  file system \<^verbatim>\<open>writeFile("/.", b)\<close> succeeds for every \<open>b\<close> and stores a file
  named \<^verbatim>\<open>.\<close>; \<^verbatim>\<open>cat("/.")\<close> then resolves to the root and fails with
  \<open>NotAFile\<close>. The same with \<^verbatim>\<open>/a/..\<close> below a directory \<^verbatim>\<open>/a\<close>. For the
  path \<^verbatim>\<open>/x\<close> the bytes come back.
\<close>

theorem C6_writeFile_dot_not_read_back:
  "writeFile new_fs ''/.'' b =
     (Inr (), \<lparr>root = 0, heap =
        [\<lparr>name = ''/'', parent = None, data = DirectoryNode [(''.'', 1)]\<rparr>,
         \<lparr>name = ''.'', parent = Some 0, data = FileNode b\<rparr>]\<rparr>)
   \<and> cat (snd (writeFile new_fs ''/.'' b)) ''/.'' = Inl NotAFile
   \<and> fst (writeFile fs_a ''/a/..'' b) = Inr ()
   \<and> cat (snd (writeFile fs_a ''/a/..'' b)) ''/a/..'' = Inl NotAFile
   \<and> fst (writeFile new_fs ''/x'' b) = Inr ()
   \<and> cat (snd (writeFile new_fs ''/x'' b)) ''/x'' = Inr b"
  by (simp add: fs_a_def eval_defs)

section \<open>Resolution in a well-formed store\<close>

lemma wf_fs_boundedI: "wf_fs_bounded s \<Longrightarrow> wf_fs s"
  unfolding wf_fs_bounded_def wf_fs_def list_all_iff by auto

lemma climbs_mono: "climbs s k a \<Longrightarrow> climbs s (k + j) a"
  by (induction k arbitrary: a) (auto split: option.splits, (cases j; simp)+)

lemma wf_fs_climbs: "wf_fs s \<Longrightarrow> a < length (heap s) \<Longrightarrow> \<exists>k. climbs s k a"
  by (simp add: wf_fs_def)

lemma wf_fs_climbs_bound:
  assumes w: "wf_fs s"
  shows "\<exists>K. \<forall>a < length (heap s). climbs s K a"
proof -
  have "\<exists>K. \<forall>a < n. climbs s K a" if "n \<le> length (heap s)" for n
    using that
  proof (induction n)
    case 0
    show ?case by simp
  next
    case (Suc n)
    then obtain K where K: "\<forall>a < n. climbs s K a" by auto
    from Suc.prems wf_fs_climbs [OF w, of n] obtain k where k: "climbs s k n" by auto
    have "\<forall>a < Suc n. climbs s (K + k) a"
    proof (intro allI impI)
      fix a assume "a < Suc n"
      then consider "a < n" | "a = n" by linarith
      then show "climbs s (K + k) a"
      proof cases
        case 1
        with K climbs_mono [of s K a k] show ?thesis by simp
      next
        case 2
        with k climbs_mono [of s k n K] show ?thesis by (simp add: add.commute)
      qed
    qed
    then show ?case by blast
  qed
  then show ?thesis by simp
qed

lemma wf_fs_node: "wf_fs s \<Longrightarrow> a < length (heap s) \<Longrightarrow> wf_node s a"
  by (simp add: wf_fs_def list_all_iff)

lemma wf_fs_root_dir: "wf_fs s \<Longrightarrow> children_at s (root s) \<noteq> None"
proof -
  assume w: "wf_fs s"
  then have r: "root s < length (heap s)" by (simp add: wf_fs_def)
  from wf_fs_node [OF w r] show ?thesis
    by (auto simp: wf_node_def children_at_def getType_def split: option.splits node_data.splits)
qed

lemma wf_parent_dir:
  assumes "wf_fs s" "node_at s a = Some n" "a \<noteq> root s"
  shows "\<exists>d. parent n = Some d \<and> children_at s d \<noteq> None"
proof -
  from assms(2) have "a < length (heap s)" by (auto dest: node_at_SomeD)
  from wf_fs_node [OF assms(1) this] assms(2,3) show ?thesis
    by (auto simp: wf_node_def split: option.splits)
qed

lemma wf_child:
  assumes "wf_fs s" "children_at s a = Some cs" "(nm, c) \<in> set cs"
  shows "\<exists>cn. node_at s c = Some cn \<and> parent cn = Some a \<and> name cn = nm"
proof -
  from assms(2) obtain n where n: "node_at s a = Some n" "data n = DirectoryNode cs"
    by (auto dest: children_at_SomeD)
  then have "a < length (heap s)" by (auto dest: node_at_SomeD)
  from wf_fs_node [OF assms(1) this] n have
    "list_all (\<lambda>(nm, c). case node_at s c of None \<Rightarrow> False
        | Some cn \<Rightarrow> parent cn = Some a \<and> name cn = nm) cs"
    by (simp add: wf_node_def)
  with assms(3) show ?thesis by (auto simp: list_all_iff split: option.splits)
qed

lemma wf_child_lookup:
  assumes "wf_fs s" "children_at s a = Some cs" "map_of cs nm = Some c"
  shows "\<exists>cn. node_at s c = Some cn \<and> parent cn = Some a \<and> name cn = nm"
  using wf_child [OF assms(1,2) map_of_SomeD [OF assms(3)]] .

lemma getType_Directory_children:
  "node_at s a = Some n \<Longrightarrow> getType n = Directory \<Longrightarrow> children_at s a \<noteq> None"
  by (simp add: children_at_def getType_def split: node_data.splits)

lemma resolve_loop_wf:
  assumes w: "wf_fs s"
  shows "children_at s cur \<noteq> None \<Longrightarrow>
     resolve_loop s cur cs \<noteq> Inl UndefinedBehaviour \<and>
     (\<forall>a. resolve_loop s cur cs = Inr a \<longrightarrow> node_at s a \<noteq> None)"
proof (induction cs arbitrary: cur)
  case Nil
  then show ?case by (auto simp: children_at_def split: option.splits)
next
  case (Cons c cs)
  from Cons.prems obtain cn chs where cn: "node_at s cur = Some cn" and chs: "children_at s cur = Some chs"
    by (auto simp: children_at_def split: option.splits)
  consider (skip) "c = [] \<or> c = ''.''" | (up) "c = ''..''" | (down) "c \<noteq> []" "c \<noteq> ''.''" "c \<noteq> ''..''"
    by blast
  then show ?case
  proof cases
    case skip
    with Cons show ?thesis by simp
  next
    case up
    show ?thesis
    proof (cases "cur = root s")
      case True
      with up Cons show ?thesis by simp
    next
      case False
      from wf_parent_dir [OF w cn False] obtain d where d: "parent cn = Some d" "children_at s d \<noteq> None"
        by blast
      from Cons.IH [OF d(2)] up False cn d(1) show ?thesis by simp
    qed
  next
    case down
    show ?thesis
    proof (cases "map_of chs c")
      case None
      with down chs show ?thesis by simp
    next
      case (Some child)
      from wf_child_lookup [OF w chs Some] obtain chn where chn: "node_at s child = Some chn"
        by blast
      show ?thesis
      proof (cases "getType chn = Directory")
        case True
        from getType_Directory_children [OF chn True] have "children_at s child \<noteq> None" .
        from Cons.IH [OF this] down chs Some chn True show ?thesis by simp
      next
        case False
        with down chs Some chn show ?thesis by simp
      qed
    qed
  qed
qed

lemma resolvePath_wf:
  assumes w: "wf_fs s"
  shows "resolvePath s p \<noteq> Inl UndefinedBehaviour"
    and "resolvePath s p = Inr a \<Longrightarrow> node_at s a \<noteq> None"
proof -
  have r: "children_at s (root s) \<noteq> None" by (rule wf_fs_root_dir [OF w])
  from resolve_loop_wf [OF w r] show "resolvePath s p \<noteq> Inl UndefinedBehaviour"
    by (simp add: resolvePath_def)
  assume "resolvePath s p = Inr a"
  with resolve_loop_wf [OF w r] r show "node_at s a \<noteq> None"
    by (auto simp: resolvePath_def children_at_def split: if_splits option.splits)
qed

lemma resolveParentAndName_wf_errors:
  assumes w: "wf_fs s" and r: "resolveParentAndName s p = Inl e"
  shows "e = InvalidPath \<or> e = NotFound \<or> e = NotADirectory"
proof -
  have "e \<noteq> UndefinedBehaviour"
  proof
    assume "e = UndefinedBehaviour"
    with r resolvePath_wf [OF w] show False
      by (fastforce simp: resolveParentAndName_def Let_def
          split: if_splits option.splits sum.splits)
  qed
  with resolveParentAndName_errors [OF r] show ?thesis by simp
qed

section \<open>Listing a directory\<close>

lemma fs_ls_eq:
  "fs_ls = \<lparr>root = 0, heap =
     [\<lparr>name = ''/'', parent = None, data = DirectoryNode [(''a'', 1), (''a.txt'', 2)]\<rparr>,
      \<lparr>name = ''a'', parent = Some 0, data = DirectoryNode []\<rparr>,
      \<lparr>name = ''a.txt'', parent = Some 0, data = FileNode ''x''\<rparr>]\<rparr>"
  by (simp add: fs_ls_def eval_defs)

lemma ls_loop_iff:
  "ls_loop s acc cs = Inr es \<longleftrightarrow>
     (\<forall>c \<in> snd ` set cs. c < length (heap s)) \<and> es = acc @ ls_entries s cs"
proof (induction cs arbitrary: acc)
  case Nil
  show ?case by (auto simp: ls_entries_def)
next
  case (Cons x cs)
  obtain nm child where x: "x = (nm, child)" by (cases x)
  show ?case
  proof (cases "child < length (heap s)")
    case True
    then show ?thesis
      using Cons [of "acc @ [nm @ (if getType (heap s ! child) = Directory then ''/'' else [])]"]
      by (simp add: x node_at_def ls_entries_def)
  next
    case False
    then show ?thesis by (simp add: x node_at_def)
  qed
qed

lemma sort_mset_cong: "mset xs = mset ys \<Longrightarrow> sort xs = sort (ys :: string list)"
  by (metis mset_sort properties_for_sort sorted_sort)

lemma ls_InrD:
  assumes "ls s p = Inr es"
  shows "\<exists>d n cs es0. resolvePath s p = Inr d \<and> node_at s d = Some n \<and>
           data n = DirectoryNode cs \<and> ls_loop s [] cs = Inr es0 \<and> es = sort es0"
proof (cases "resolvePath s p")
  case (Inl e)
  with assms show ?thesis by (simp add: ls_def)
next
  case (Inr d)
  show ?thesis
  proof (cases "node_at s d")
    case None
    with assms Inr show ?thesis by (simp add: ls_def)
  next
    case (Some n)
    show ?thesis
    proof (cases "data n")
      case (FileNode x)
      with assms Inr Some show ?thesis by (simp add: ls_def)
    next
      case (DirectoryNode cs)
      show ?thesis
      proof (cases "ls_loop s [] cs")
        case (Inl e)
        with assms Inr Some DirectoryNode show ?thesis by (simp add: ls_def)
      next
        case (Inr es0)
        with assms \<open>resolvePath s p = Inr d\<close> Some DirectoryNode show ?thesis
          by (simp add: ls_def)
      qed
    qed
  qed
qed

lemma ls_entries_mem:
  assumes v: "\<forall>c \<in> snd ` set cs. c < length (heap s)"
  shows "e \<in> set (ls_entries s cs) \<longleftrightarrow>
            (\<exists>nm child chn. (nm, child) \<in> set cs \<and> node_at s child = Some chn \<and>
               e = nm @ (if getType chn = Directory then ''/'' else []))"
proof
  assume "e \<in> set (ls_entries s cs)"
  then obtain x where x: "x \<in> set cs"
    and e: "e = (case x of (nm, child) \<Rightarrow> nm @ (if getType (heap s ! child) = Directory then ''/'' else []))"
    unfolding ls_entries_def set_map by (elim imageE)
  obtain nm child where xe: "x = (nm, child)" by (cases x)
  from v x xe have "child < length (heap s)" by (metis image_eqI snd_conv)
  then have "node_at s child = Some (heap s ! child)" by (simp add: node_at_def)
  with x e xe show "\<exists>nm child chn. (nm, child) \<in> set cs \<and> node_at s child = Some chn \<and>
               e = nm @ (if getType chn = Directory then ''/'' else [])"
    by (intro exI [of _ nm] exI [of _ child] exI [of _ "heap s ! child"]) simp
next
  assume "\<exists>nm child chn. (nm, child) \<in> set cs \<and> node_at s child = Some chn \<and>
               e = nm @ (if getType chn = Directory then ''/'' else [])"
  then obtain nm child chn where m: "(nm, child) \<in> set cs" and n: "node_at s child = Some chn"
    and e: "e = nm @ (if getType chn = Directory then ''/'' else [])" by (elim exE conjE)
  from n have "chn = heap s ! child" by (simp add: node_at_def split: if_splits)
  with e have "e = (case (nm, child) of (nm, child) \<Rightarrow> nm @ (if getType (heap s ! child) = Directory then ''/'' else []))"
    by simp
  with m show "e \<in> set (ls_entries s cs)" unfolding ls_entries_def set_map by (rule image_eqI [rotated])
qed

text \<open>
  In a well-formed store the children of a directory are nodes of the store, so the
  loop of \<^verbatim>\<open>ls\<close> runs to its end whatever the order in which the map hands out the
  children.
\<close>

lemma wf_children_valid:
  assumes "wf_fs s" "children_at s d = Some cs"
  shows "\<forall>c \<in> snd ` set cs. c < length (heap s)"
proof
  fix c assume "c \<in> snd ` set cs"
  then obtain nm where "(nm, c) \<in> set cs" by auto
  from wf_child [OF assms this] obtain cn where "node_at s c = Some cn" by blast
  then show "c < length (heap s)" by (simp add: node_at_def split: if_splits)
qed

lemma ls_loop_permuted:
  assumes v: "\<forall>c \<in> snd ` set cs. c < length (heap s)" and m: "mset xs = mset cs"
  shows "ls_loop s [] xs = Inr (ls_entries s xs)"
    and "sort (ls_entries s xs) = sort (ls_entries s cs)"
proof -
  from m have "set xs = set cs" by (rule mset_eq_setD)
  with v show "ls_loop s [] xs = Inr (ls_entries s xs)" unfolding ls_loop_iff by simp
  have "mset (ls_entries s xs) = mset (ls_entries s cs)"
    unfolding ls_entries_def mset_map m ..
  then show "sort (ls_entries s xs) = sort (ls_entries s cs)" by (rule sort_mset_cong)
qed

lemma ls_directory:
  assumes w: "wf_fs s" and r: "resolvePath s p = Inr d" and c: "children_at s d = Some cs"
  shows "ls s p = Inr (sort (ls_entries s cs))"
proof -
  from c obtain n where n: "node_at s d = Some n" "data n = DirectoryNode cs"
    by (auto dest: children_at_SomeD)
  from wf_children_valid [OF w c] have "ls_loop s [] cs = Inr (ls_entries s cs)"
    unfolding ls_loop_iff by simp
  with r n show ?thesis by (simp add: ls_def)
qed

lemma ls_file:
  assumes w: "wf_fs s" and r: "resolvePath s p = Inr d" and c: "children_at s d = None"
  shows "ls s p = Inl NotADirectory"
proof -
  from resolvePath_wf(2) [OF w r] obtain n where n: "node_at s d = Some n" by auto
  with c obtain b where "data n = FileNode b" by (cases "data n") (simp_all add: children_at_def)
  with r n show ?thesis by (simp add: ls_def)
qed

text \<open>
  C3 (as amended). In a well-formed store, when \<open>p\<close> resolves to a directory,
  \<^verbatim>\<open>ls(p)\<close> returns: the list has one entry per child, the child's name, followed
  by \<^verbatim>\<open>/\<close> when the child is a directory (\<open>ls_entries\<close>), and it is in ascending
  lexicographic order, the order of \<^verbatim>\<open>std::string\<close> on the entries as returned,
  marker included. The order in which the map hands out the children (which for
  \<^verbatim>\<open>std::unordered_map\<close> is unspecified and may depend on the order of insertion)
  does not change the result: over any permutation of the children the loop runs to its
  end, and sorting its entries gives the same list; and two directories, in two stores,
  whose children have the same marked names are listed alike. When \<open>p\<close> resolves to a file,
  \<^verbatim>\<open>ls(p)\<close> fails with \<open>NotADirectory\<close>; when \<open>p\<close> does not resolve, it fails with
  the error of the resolution. In any store, a list that \<^verbatim>\<open>ls(p)\<close> returns is sorted
  and its entries are exactly the marked names of the children of the directory that
  \<open>p\<close> names. On a fresh file system \<^verbatim>\<open>mkdir("/home"); mkdir("/tmp")\<close> in either
  order gives \<^verbatim>\<open>ls("/") = ["home/", "tmp/"]\<close>.
\<close>

theorem C3_ls_sorted:
  "(wf_fs s \<and> resolvePath s p = Inr d \<and> children_at s d = Some cs \<longrightarrow>
      (\<exists>es. ls s p = Inr es \<and> sorted es \<and> length es = length cs \<and>
         mset es = mset (ls_entries s cs) \<and>
         (\<forall>e. e \<in> set es \<longleftrightarrow>
            (\<exists>nm child chn. (nm, child) \<in> set cs \<and> node_at s child = Some chn \<and>
               e = nm @ (if getType chn = Directory then ''/'' else []))) \<and>
         (\<forall>xs. mset xs = mset cs \<longrightarrow>
            (\<exists>es'. ls_loop s [] xs = Inr es' \<and> sort es' = es))))
   \<and> (wf_fs s \<and> resolvePath s p = Inr d \<and> children_at s d = None \<longrightarrow>
        ls s p = Inl NotADirectory)
   \<and> (resolvePath s p = Inl e \<longrightarrow> ls s p = Inl e)
   \<and> (ls s p = Inr es \<longrightarrow>
      sorted es \<and>
      (\<exists>d cs. resolvePath s p = Inr d \<and> children_at s d = Some cs \<and>
         length es = length cs \<and>
         (\<forall>e. e \<in> set es \<longleftrightarrow>
            (\<exists>nm child chn. (nm, child) \<in> set cs \<and> node_at s child = Some chn \<and>
               e = nm @ (if getType chn = Directory then ''/'' else [])))))
   \<and> (ls_loop s [] xs = Inr es0 \<and> mset xs' = mset xs \<longrightarrow>
        (\<exists>es'. ls_loop s [] xs' = Inr es' \<and> sort es' = sort es0))
   \<and> (wf_fs s \<and> resolvePath s p = Inr d \<and> children_at s d = Some cs \<and>
      wf_fs s' \<and> resolvePath s' p' = Inr d' \<and> children_at s' d' = Some cs' \<and>
      mset (ls_entries s cs) = mset (ls_entries s' cs') \<longrightarrow>
        ls s p = ls s' p')
   \<and> ls (snd (mkdir (snd (mkdir new_fs ''/home'')) ''/tmp'')) ''/'' = Inr [''home/'', ''tmp/'']
   \<and> ls (snd (mkdir (snd (mkdir new_fs ''/tmp'')) ''/home'')) ''/'' = Inr [''home/'', ''tmp/'']"
proof (intro conjI impI)
  assume a: "wf_fs s \<and> resolvePath s p = Inr d \<and> children_at s d = Some cs"
  then have w: "wf_fs s" and r: "resolvePath s p = Inr d" and c: "children_at s d = Some cs"
    by simp_all
  note v = wf_children_valid [OF w c]
  let ?es = "sort (ls_entries s cs)"
  have 1: "ls s p = Inr ?es" by (rule ls_directory [OF w r c])
  have 2: "sorted ?es" by simp
  have 3: "length ?es = length cs" by (simp add: ls_entries_def)
  have 4: "mset ?es = mset (ls_entries s cs)" by simp
  have "set ?es = set (ls_entries s cs)" by simp
  with ls_entries_mem [OF v]
  have 5: "\<forall>e. e \<in> set ?es \<longleftrightarrow>
            (\<exists>nm child chn. (nm, child) \<in> set cs \<and> node_at s child = Some chn \<and>
               e = nm @ (if getType chn = Directory then ''/'' else []))"
    by simp
  have 6: "\<forall>xs. mset xs = mset cs \<longrightarrow> (\<exists>es'. ls_loop s [] xs = Inr es' \<and> sort es' = ?es)"
  proof (intro allI impI)
    fix xs assume m: "mset xs = mset cs"
    from ls_loop_permuted [OF v m]
    show "\<exists>es'. ls_loop s [] xs = Inr es' \<and> sort es' = ?es" by blast
  qed
  from 1 2 3 4 5 6
  show "\<exists>es. ls s p = Inr es \<and> sorted es \<and> length es = length cs \<and>
         mset es = mset (ls_entries s cs) \<and>
         (\<forall>e. e \<in> set es \<longleftrightarrow>
            (\<exists>nm child chn. (nm, child) \<in> set cs \<and> node_at s child = Some chn \<and>
               e = nm @ (if getType chn = Directory then ''/'' else []))) \<and>
         (\<forall>xs. mset xs = mset cs \<longrightarrow>
            (\<exists>es'. ls_loop s [] xs = Inr es' \<and> sort es' = es))"
    by (intro exI [of _ ?es] conjI)
next
  assume "wf_fs s \<and> resolvePath s p = Inr d \<and> children_at s d = None"
  then show "ls s p = Inl NotADirectory" by (elim conjE) (rule ls_file)
next
  assume "resolvePath s p = Inl e"
  then show "ls s p = Inl e" by (simp add: ls_def)
next
  assume a: "ls s p = Inr es"
  from ls_InrD [OF a]
  obtain d n cs0 es0 where d: "resolvePath s p = Inr d" and n: "node_at s d = Some n"
    and cs0: "data n = DirectoryNode cs0" and l: "ls_loop s [] cs0 = Inr es0" and es: "es = sort es0"
    by blast
  from l have v: "\<forall>c \<in> snd ` set cs0. c < length (heap s)" and e0: "es0 = ls_entries s cs0"
    unfolding ls_loop_iff by simp_all
  show "sorted es" by (simp add: es)
  have ch: "children_at s d = Some cs0" by (simp add: children_at_def n cs0)
  have len: "length es = length cs0" by (simp add: es e0 ls_entries_def)
  have "set es = set (ls_entries s cs0)" by (simp add: es e0)
  with ls_entries_mem [OF v]
  have mem: "\<forall>e. e \<in> set es \<longleftrightarrow>
            (\<exists>nm child chn. (nm, child) \<in> set cs0 \<and> node_at s child = Some chn \<and>
               e = nm @ (if getType chn = Directory then ''/'' else []))"
    by simp
  from d ch len mem
  show "\<exists>d cs. resolvePath s p = Inr d \<and> children_at s d = Some cs \<and>
         length es = length cs \<and>
         (\<forall>e. e \<in> set es \<longleftrightarrow>
            (\<exists>nm child chn. (nm, child) \<in> set cs \<and> node_at s child = Some chn \<and>
               e = nm @ (if getType chn = Directory then ''/'' else [])))"
    by (intro exI [of _ d] exI [of _ cs0] conjI)
next
  assume a: "ls_loop s [] xs = Inr es0 \<and> mset xs' = mset xs"
  then have v: "\<forall>c \<in> snd ` set xs. c < length (heap s)" and e: "es0 = ls_entries s xs"
    unfolding ls_loop_iff by simp_all
  from a have m: "mset xs' = mset xs" by simp
  from ls_loop_permuted [OF v m] e
  show "\<exists>es'. ls_loop s [] xs' = Inr es' \<and> sort es' = sort es0" by blast
next
  assume a: "wf_fs s \<and> resolvePath s p = Inr d \<and> children_at s d = Some cs \<and>
      wf_fs s' \<and> resolvePath s' p' = Inr d' \<and> children_at s' d' = Some cs' \<and>
      mset (ls_entries s cs) = mset (ls_entries s' cs')"
  then have 1: "ls s p = Inr (sort (ls_entries s cs))"
    by (elim conjE) (rule ls_directory)
  from a have 2: "ls s' p' = Inr (sort (ls_entries s' cs'))"
    by (elim conjE) (rule ls_directory)
  from a have "sort (ls_entries s cs) = sort (ls_entries s' cs')"
    by (elim conjE) (rule sort_mset_cong)
  with 1 2 show "ls s p = ls s' p'" by simp
next
  show "ls (snd (mkdir (snd (mkdir new_fs ''/home'')) ''/tmp'')) ''/'' = Inr [''home/'', ''tmp/'']"
    by code_simp
next
  show "ls (snd (mkdir (snd (mkdir new_fs ''/tmp'')) ''/home'')) ''/'' = Inr [''home/'', ''tmp/'']"
    by code_simp
qed

text \<open>
  C3, counterexample to the claim as stated (the child names in ascending order, each
  directory's name then marked): on \<open>fs_ls\<close> the root holds the directory \<^verbatim>\<open>a\<close>
  and the file \<^verbatim>\<open>a.txt\<close>. The name \<^verbatim>\<open>a\<close> is below the name \<^verbatim>\<open>a.txt\<close>, so
  the names in ascending order, then marked, are \<^verbatim>\<open>["a/", "a.txt"]\<close>. The code
  sorts the entries after it has appended the marker, and \<^verbatim>\<open>.\<close> is below \<^verbatim>\<open>/\<close>:
  \<^verbatim>\<open>ls("/")\<close> returns \<^verbatim>\<open>["a.txt", "a/"]\<close>, whose names, \<^verbatim>\<open>a.txt\<close> then
  \<^verbatim>\<open>a\<close>, are not in ascending order.
\<close>

theorem C3_ls_names_not_sorted:
  "wf_fs fs_ls
   \<and> children_at fs_ls (root fs_ls) = Some [(''a'', 1), (''a.txt'', 2)]
   \<and> getNodeType fs_ls ''/a'' = Inr Directory
   \<and> getNodeType fs_ls ''/a.txt'' = Inr File
   \<and> sort [''a'', ''a.txt''] = [''a'', ''a.txt'']
   \<and> ls fs_ls ''/'' = Inr [''a.txt'', ''a/'']
   \<and> ls fs_ls ''/'' \<noteq> Inr [''a/'', ''a.txt'']
   \<and> \<not> sorted [''a.txt'', ''a'']"
proof -
  have w: "wf_fs fs_ls" by (rule wf_fs_boundedI) (unfold fs_ls_eq, code_simp)
  have "children_at fs_ls (root fs_ls) = Some [(''a'', 1), (''a.txt'', 2)]
   \<and> getNodeType fs_ls ''/a'' = Inr Directory
   \<and> getNodeType fs_ls ''/a.txt'' = Inr File
   \<and> ls fs_ls ''/'' = Inr [''a.txt'', ''a/'']
   \<and> ls fs_ls ''/'' \<noteq> Inr [''a/'', ''a.txt'']"
    unfolding fs_ls_eq by code_simp
  moreover have "sort [''a'', ''a.txt''] = [''a'', ''a.txt''] \<and> \<not> sorted [''a.txt'', ''a'']"
    by code_simp
  ultimately show ?thesis using w by simp
qed

text \<open>
  The witness, on \<open>fs_ls\<close>: the listing of the root, with the children taken in the
  other order as well; the listing of the file \<^verbatim>\<open>/a.txt\<close>; and the listing of a path
  that does not resolve. And the two stores that hold \<^verbatim>\<open>/home\<close> and \<^verbatim>\<open>/tmp\<close>,
  created in the one order and in the other: the root's children come in different
  orders and are listed alike.
\<close>

theorem C3_ls_sorted_witness:
  "wf_fs fs_ls
   \<and> resolvePath fs_ls ''/'' = Inr 0
   \<and> children_at fs_ls 0 = Some [(''a'', 1), (''a.txt'', 2)]
   \<and> ls fs_ls ''/'' = Inr [''a.txt'', ''a/'']
   \<and> sorted [''a.txt'', ''a/'']
   \<and> mset [''a.txt'', ''a/''] = mset (ls_entries fs_ls [(''a'', 1), (''a.txt'', 2)])
   \<and> mset [(''a.txt'', 2), (''a'', 1::nat)] = mset [(''a'', 1), (''a.txt'', 2)]
   \<and> (\<exists>es'. ls_loop fs_ls [] [(''a.txt'', 2), (''a'', 1)] = Inr es' \<and> sort es' = [''a.txt'', ''a/''])
   \<and> resolvePath fs_ls ''/a.txt'' = Inr 2
   \<and> children_at fs_ls 2 = None
   \<and> ls fs_ls ''/a.txt'' = Inl NotADirectory
   \<and> resolvePath fs_ls ''/b'' = Inl NotFound
   \<and> ls fs_ls ''/b'' = Inl NotFound
   \<and> wf_fs (snd (mkdir (snd (mkdir new_fs ''/home'')) ''/tmp''))
   \<and> wf_fs (snd (mkdir (snd (mkdir new_fs ''/tmp'')) ''/home''))
   \<and> children_at (snd (mkdir (snd (mkdir new_fs ''/home'')) ''/tmp'')) 0
        = Some [(''home'', 1), (''tmp'', 2)]
   \<and> children_at (snd (mkdir (snd (mkdir new_fs ''/tmp'')) ''/home'')) 0
        = Some [(''tmp'', 1), (''home'', 2)]
   \<and> ls (snd (mkdir (snd (mkdir new_fs ''/home'')) ''/tmp'')) ''/''
        = ls (snd (mkdir (snd (mkdir new_fs ''/tmp'')) ''/home'')) ''/''"
proof -
  let ?ht = "snd (mkdir (snd (mkdir new_fs ''/home'')) ''/tmp'')"
  let ?th = "snd (mkdir (snd (mkdir new_fs ''/tmp'')) ''/home'')"
  have wh: "wf_fs ?ht" by (rule wf_fs_boundedI) code_simp
  have wt: "wf_fs ?th" by (rule wf_fs_boundedI) code_simp
  have rh: "resolvePath ?ht ''/'' = Inr 0" by code_simp
  have rt: "resolvePath ?th ''/'' = Inr 0" by code_simp
  have ch: "children_at ?ht 0 = Some [(''home'', 1), (''tmp'', 2)]" by code_simp
  have ct: "children_at ?th 0 = Some [(''tmp'', 1), (''home'', 2)]" by code_simp
  have eh: "ls_entries ?ht [(''home'', 1), (''tmp'', 2)] = [''home/'', ''tmp/'']" by code_simp
  have et: "ls_entries ?th [(''tmp'', 1), (''home'', 2)] = [''tmp/'', ''home/'']" by code_simp
  have me: "mset (ls_entries ?ht [(''home'', 1), (''tmp'', 2)])
              = mset (ls_entries ?th [(''tmp'', 1), (''home'', 2)])"
    unfolding eh et by simp
  have 4: "ls ?ht ''/'' = ls ?th ''/''"
    using C3_ls_sorted [where s = ?ht and p = "''/''" and d = 0
        and cs = "[(''home'', 1), (''tmp'', 2)]" and s' = ?th and p' = "''/''" and d' = 0
        and cs' = "[(''tmp'', 1), (''home'', 2)]",
        THEN conjunct2, THEN conjunct2, THEN conjunct2, THEN conjunct2, THEN conjunct2,
        THEN conjunct1] wh rh ch wt rt ct me by simp
  have w: "wf_fs fs_ls" by (rule wf_fs_boundedI) (unfold fs_ls_eq, code_simp)
  have r: "resolvePath fs_ls ''/'' = Inr 0" unfolding fs_ls_eq by code_simp
  have c: "children_at fs_ls 0 = Some [(''a'', 1), (''a.txt'', 2)]" unfolding fs_ls_eq by code_simp
  have l: "ls fs_ls ''/'' = Inr [''a.txt'', ''a/'']" unfolding fs_ls_eq by code_simp
  have m: "mset [(''a.txt'', 2), (''a'', 1::nat)] = mset [(''a'', 1), (''a.txt'', 2)]" by simp
  have r2: "resolvePath fs_ls ''/a.txt'' = Inr 2" unfolding fs_ls_eq by code_simp
  have c2: "children_at fs_ls 2 = None" unfolding fs_ls_eq by code_simp
  have r3: "resolvePath fs_ls ''/b'' = Inl NotFound" unfolding fs_ls_eq by code_simp
  from C3_ls_sorted [where s = fs_ls and p = "''/''" and d = 0
      and cs = "[(''a'', 1), (''a.txt'', 2)]", THEN conjunct1] w r c
  obtain es where e1: "ls fs_ls ''/'' = Inr es" and e2: "sorted es"
    and e3: "mset es = mset (ls_entries fs_ls [(''a'', 1), (''a.txt'', 2)])"
    and e4: "\<forall>xs. mset xs = mset [(''a'', 1), (''a.txt'', 2::nat)] \<longrightarrow>
               (\<exists>es'. ls_loop fs_ls [] xs = Inr es' \<and> sort es' = es)"
    by blast
  from e1 l have es: "es = [''a.txt'', ''a/'']" by simp
  from e4 m have 1: "\<exists>es'. ls_loop fs_ls [] [(''a.txt'', 2), (''a'', 1)] = Inr es' \<and> sort es' = es"
    by blast
  have 2: "ls fs_ls ''/a.txt'' = Inl NotADirectory"
    using C3_ls_sorted [where s = fs_ls and p = "''/a.txt''" and d = 2,
        THEN conjunct2, THEN conjunct1] w r2 c2 by simp
  have 3: "ls fs_ls ''/b'' = Inl NotFound"
    using C3_ls_sorted [where s = fs_ls and p = "''/b''" and e = NotFound,
        THEN conjunct2, THEN conjunct2, THEN conjunct1] r3 by simp
  from w r c l e2 e3 m 1 r2 c2 2 r3 3 wh wt ch ct 4 show ?thesis unfolding es by (intro conjI)
qed

section \<open>Existence test and the handling of resolution failures\<close>

lemma exists_fs_wf:
  assumes w: "wf_fs s"
  shows "exists_fs s p = Inr (case resolvePath s p of Inl _ \<Rightarrow> False | Inr _ \<Rightarrow> True)"
  using resolvePath_wf(1) [OF w, of p]
  by (simp add: exists_fs_def split: sum.splits)

lemma resolveDestination_catch:
  "resolvePath s d = Inl e \<Longrightarrow> e \<noteq> UndefinedBehaviour \<Longrightarrow>
   resolveDestination s d n = resolveParentAndName s d"
  by (simp add: resolveDestination_def resolveDestination_try_def)

lemma resolvePath_root: "resolvePath s ''/'' = Inr (root s)"
  by (simp add: resolvePath_def)

lemma resolvePath_fail_propagates:
  assumes "resolvePath s p = Inl e"
  shows "cat s p = Inl e" "ls s p = Inl e" "getNodeType s p = Inl e"
    "size_fs s p = Some (Inl e)" "append_fs s p b = (Inl e, s)"
    "cp s p q = Some (Inl e, s)" "mv s p q = Some (Inl e, s)"
proof -
  from assms have "p \<noteq> ''/''" by (auto simp: resolvePath_root)
  with assms show "mv s p q = Some (Inl e, s)" by (simp add: mv_def)
qed (simp_all add: assms cat_def ls_def getNodeType_def size_fs_def append_fs_def cp_def)

lemma resolveParentAndName_fail_propagates:
  assumes "resolveParentAndName s p = Inl e"
  shows "touch s p = (Inl e, s)" "writeFile s p b = (Inl e, s)" "rm s p r = (Inl e, s)"
proof -
  show "rm s p r = (Inl e, s)"
  proof (cases "p = ''/''")
    case True
    with assms have "e = InvalidPath" by (simp add: resolveParentAndName_def)
    with True show ?thesis by (simp add: rm_def)
  next
    case False
    with assms show ?thesis by (simp add: rm_def)
  qed
qed (simp_all add: assms touch_def writeFile_def)

text \<open>
  C9 (as amended). In a well-formed store \<^verbatim>\<open>exists(p)\<close> never fails, for any string
  \<open>p\<close>: it answers \<^verbatim>\<open>true\<close> exactly when \<^verbatim>\<open>_resolvePath(p)\<close> returns a node and
  \<^verbatim>\<open>false\<close> exactly when it throws. It is not the only place where a resolution
  failure is caught: \<^verbatim>\<open>_resolveDestination\<close>, and with it \<^verbatim>\<open>cp\<close> and \<^verbatim>\<open>mv\<close>,
  answers a failed resolution of the destination with the outcome of
  \<^verbatim>\<open>_resolveParentAndName\<close> on the same path. Everywhere else a failure of
  \<^verbatim>\<open>_resolvePath\<close> or \<^verbatim>\<open>_resolveParentAndName\<close> on the operation's path is the
  failure of the operation, and the store is unchanged.
\<close>

theorem C9_exists_total_and_catches:
  "(wf_fs s \<longrightarrow>
      (exists_fs s p = Inr True \<longleftrightarrow> (\<exists>a. resolvePath s p = Inr a)) \<and>
      (exists_fs s p = Inr False \<longleftrightarrow> (\<exists>e. resolvePath s p = Inl e)) \<and>
      (\<exists>b. exists_fs s p = Inr b))
   \<and> (resolvePath s dst = Inl e \<and> e \<noteq> UndefinedBehaviour \<longrightarrow>
        resolveDestination s dst n = resolveParentAndName s dst)
   \<and> (resolvePath s p = Inl e \<longrightarrow>
        cat s p = Inl e \<and> ls s p = Inl e \<and> getNodeType s p = Inl e \<and>
        size_fs s p = Some (Inl e) \<and> append_fs s p b = (Inl e, s) \<and>
        cp s p q = Some (Inl e, s) \<and> mv s p q = Some (Inl e, s))
   \<and> (resolveParentAndName s p = Inl e \<longrightarrow>
        touch s p = (Inl e, s) \<and> writeFile s p b = (Inl e, s) \<and> rm s p r = (Inl e, s))"
proof -
  have 1: "wf_fs s \<longrightarrow>
      (exists_fs s p = Inr True \<longleftrightarrow> (\<exists>a. resolvePath s p = Inr a)) \<and>
      (exists_fs s p = Inr False \<longleftrightarrow> (\<exists>e. resolvePath s p = Inl e)) \<and>
      (\<exists>b. exists_fs s p = Inr b)"
  proof
    assume w: "wf_fs s"
    show "(exists_fs s p = Inr True \<longleftrightarrow> (\<exists>a. resolvePath s p = Inr a)) \<and>
      (exists_fs s p = Inr False \<longleftrightarrow> (\<exists>e. resolvePath s p = Inl e)) \<and>
      (\<exists>b. exists_fs s p = Inr b)"
      by (cases "resolvePath s p") (auto simp: exists_fs_wf [OF w])
  qed
  have 2: "resolvePath s dst = Inl e \<and> e \<noteq> UndefinedBehaviour \<longrightarrow>
        resolveDestination s dst n = resolveParentAndName s dst"
    by (simp add: resolveDestination_catch)
  have 3: "resolvePath s p = Inl e \<longrightarrow>
        cat s p = Inl e \<and> ls s p = Inl e \<and> getNodeType s p = Inl e \<and>
        size_fs s p = Some (Inl e) \<and> append_fs s p b = (Inl e, s) \<and>
        cp s p q = Some (Inl e, s) \<and> mv s p q = Some (Inl e, s)"
    by (intro impI conjI) (erule resolvePath_fail_propagates)+
  have 4: "resolveParentAndName s p = Inl e \<longrightarrow>
        touch s p = (Inl e, s) \<and> writeFile s p b = (Inl e, s) \<and> rm s p r = (Inl e, s)"
    by (intro impI conjI) (erule resolveParentAndName_fail_propagates)+
  from 1 2 3 4 show ?thesis by (intro conjI)
qed

text \<open>
  C9, counterexample to the claim as stated ("exists is the only operation that
  suppresses an internal error"): on \<open>fs_dest\<close> the resolution of \<^verbatim>\<open>/new\<close> throws
  \<open>NotFound\<close>; \<^verbatim>\<open>_resolveDestination("/new", "f")\<close> catches it and returns the root
  with the name \<^verbatim>\<open>new\<close>, and \<^verbatim>\<open>cp("/f", "/new")\<close> and \<^verbatim>\<open>mv("/f", "/new")\<close>
  succeed.
\<close>

theorem C9_resolveDestination_suppresses:
  "resolvePath fs_dest ''/new'' = Inl NotFound
   \<and> resolveDestination fs_dest ''/new'' ''f'' = Inr (root fs_dest, ''new'')
   \<and> map_option fst (cp fs_dest ''/f'' ''/new'') = Some (Inr ())
   \<and> map_option fst (mv fs_dest ''/f'' ''/new'') = Some (Inr ())"
  unfolding fs_dest_eq by code_simp

text \<open>
  The witness for C9, on \<open>fs_dest\<close>: the empty string, a path without a leading
  \<^verbatim>\<open>/\<close>, a path with empty and dot components, a path through a file; a destination
  that does not resolve; a failed resolution in \<^verbatim>\<open>cat\<close>, \<^verbatim>\<open>mv\<close> and \<^verbatim>\<open>rm\<close>.
\<close>

theorem C9_exists_total_and_catches_witness:
  "wf_fs fs_dest
   \<and> exists_fs fs_dest [] = Inr False
   \<and> exists_fs fs_dest ''d'' = Inr True
   \<and> exists_fs fs_dest ''//d/./f/'' = Inr True
   \<and> exists_fs fs_dest ''/f/x'' = Inr False
   \<and> resolveDestination fs_dest ''/nope'' ''f'' = resolveParentAndName fs_dest ''/nope''
   \<and> resolvePath fs_dest ''/nope'' = Inl NotFound
   \<and> cat fs_dest ''/nope'' = Inl NotFound
   \<and> mv fs_dest ''/nope'' ''/d'' = Some (Inl NotFound, fs_dest)
   \<and> resolveParentAndName fs_dest ''/d/'' = Inl InvalidPath
   \<and> rm fs_dest ''/d/'' True = (Inl InvalidPath, fs_dest)"
proof -
  have w: "wf_fs fs_dest" by (rule wf_fs_boundedI) (unfold fs_dest_eq, code_simp)
  have r1: "resolvePath fs_dest [] = Inl InvalidPath" by (simp add: resolvePath_def)
  have r2: "resolvePath fs_dest ''d'' = Inr 2" unfolding fs_dest_eq by code_simp
  have r3: "resolvePath fs_dest ''//d/./f/'' = Inr 3" unfolding fs_dest_eq by code_simp
  have r4: "resolvePath fs_dest ''/f/x'' = Inl NotADirectory" unfolding fs_dest_eq by code_simp
  have r6: "resolvePath fs_dest ''/nope'' = Inl NotFound" unfolding fs_dest_eq by code_simp
  have r7: "resolveParentAndName fs_dest ''/d/'' = Inl InvalidPath"
    unfolding fs_dest_eq by code_simp
  note t = C9_exists_total_and_catches [where s = fs_dest]
  have e1: "exists_fs fs_dest [] = Inr False"
    using t [where p = "[]", THEN conjunct1] w r1 by simp
  have e2: "exists_fs fs_dest ''d'' = Inr True"
    using t [where p = "''d''", THEN conjunct1] w r2 by simp
  have e3: "exists_fs fs_dest ''//d/./f/'' = Inr True"
    using t [where p = "''//d/./f/''", THEN conjunct1] w r3 by simp
  have e4: "exists_fs fs_dest ''/f/x'' = Inr False"
    using t [where p = "''/f/x''", THEN conjunct1] w r4 by simp
  have e5: "resolveDestination fs_dest ''/nope'' ''f'' = resolveParentAndName fs_dest ''/nope''"
    using t [where dst = "''/nope''" and n = "''f''" and e = NotFound,
        THEN conjunct2, THEN conjunct1] r6 by simp
  have e6: "cat fs_dest ''/nope'' = Inl NotFound \<and> mv fs_dest ''/nope'' ''/d'' = Some (Inl NotFound, fs_dest)"
    using t [where p = "''/nope''" and e = NotFound and q = "''/d''",
        THEN conjunct2, THEN conjunct2, THEN conjunct1] r6 by simp
  have e7: "rm fs_dest ''/d/'' True = (Inl InvalidPath, fs_dest)"
    using t [where p = "''/d/''" and e = InvalidPath and r = True,
        THEN conjunct2, THEN conjunct2, THEN conjunct2] r7 by simp
  from w e1 e2 e3 e4 e5 r6 e6 r7 e7 show ?thesis by simp
qed

section \<open>The cycle guard of mv\<close>

lemma fs_aa_eq:
  "fs_aa = \<lparr>root = 0, heap =
     [\<lparr>name = ''/'', parent = None, data = DirectoryNode [(''a'', 1)]\<rparr>,
      \<lparr>name = ''a'', parent = Some 0, data = DirectoryNode [(''a'', 2)]\<rparr>,
      \<lparr>name = ''a'', parent = Some 1, data = DirectoryNode []\<rparr>]\<rparr>"
  by (simp add: fs_aa_def eval_defs)

lemma fs_ab_eq:
  "fs_ab = \<lparr>root = 0, heap =
     [\<lparr>name = ''/'', parent = None, data = DirectoryNode [(''a'', 1)]\<rparr>,
      \<lparr>name = ''a'', parent = Some 0, data = DirectoryNode [(''b'', 2)]\<rparr>,
      \<lparr>name = ''b'', parent = Some 1, data = DirectoryNode []\<rparr>]\<rparr>"
  by (simp add: fs_ab_def eval_defs)

lemma cycle_loop_descends:
  assumes w: "wf_fs s"
  shows "descends s a x \<Longrightarrow> cycle_loop s a (Some x) = Some (Inr True)"
proof (induction rule: descends.induct)
  case self
  show ?case by (subst cycle_loop.simps) simp
next
  case (child d cs nm c)
  from wf_child [OF w child.hyps(2,3)] obtain cn where
    cn: "node_at s c = Some cn" "parent cn = Some d" by blast
  show ?case
  proof (cases "c = a")
    case True
    then show ?thesis by (subst cycle_loop.simps) simp
  next
    case False
    have "cycle_loop s a (Some c) = cycle_loop s a (Some d)"
      by (subst cycle_loop.simps) (simp add: False cn)
    with child.IH show ?thesis by simp
  qed
qed

lemma mv_cyclic:
  assumes w: "wf_fs s" and r: "resolvePath s src = Inr a" and nr: "a \<noteq> root s"
    and n: "node_at s a = Some n"
    and d: "resolveDestination s dest (name n) = Inr (np, nn)"
    and desc: "descends s a np"
  shows "mv s src dest = Some (Inl CyclicMove, s)"
proof -
  from r nr have 1: "src \<noteq> ''/''" by (auto simp: resolvePath_root)
  from wf_parent_dir [OF w n nr] obtain op where 2: "parent n = Some op" by blast
  from cycle_loop_descends [OF w desc] have 3: "cycle_loop s a (Some np) = Some (Inr True)" .
  from 1 r n 2 d 3 show ?thesis by (simp add: mv_def)
qed

text \<open>
  The two ways in which a destination names a target directory without the handler of
  \<^verbatim>\<open>_resolveDestination\<close> having to take an \<open>AlreadyExists\<close>: the destination
  resolves to a directory that has no child of the source's name, or it does not resolve
  and is read as (parent, name).
\<close>

lemma resolveDestination_into_directory:
  assumes "resolvePath s dest = Inr np" "children_at s np = Some cs" "map_of cs nm = None"
  shows "resolveDestination s dest nm = Inr (np, nm)"
proof -
  from assms(2) obtain n where "node_at s np = Some n" "data n = DirectoryNode cs"
    by (auto dest: children_at_SomeD)
  with assms(1,3) show ?thesis by (simp add: resolveDestination_def resolveDestination_try_def)
qed

lemma resolveDestination_new_name:
  assumes w: "wf_fs s" and r: "resolvePath s dest = Inl e"
    and p: "resolveParentAndName s dest = Inr (np, nn)"
  shows "resolveDestination s dest nm = Inr (np, nn)"
proof -
  from resolvePath_wf(1) [OF w, of dest] r have "e \<noteq> UndefinedBehaviour" by auto
  from resolveDestination_catch [OF r this] p show ?thesis by simp
qed

lemma mv_root_path: "mv s ''/'' dest = Some (Inl InvalidPath, s)"
  by (simp add: mv_def)

lemma mv_root_other:
  assumes w: "wf_fs s" and ne: "src \<noteq> ''/''" and r: "resolvePath s src = Inr (root s)"
  shows "mv s src dest = Some (Inl InternalError, s)"
proof -
  from w have "root s < length (heap s)" by (simp add: wf_fs_def)
  from wf_fs_node [OF w this] obtain rn where "node_at s (root s) = Some rn" "parent rn = None"
    by (auto simp: wf_node_def split: option.splits)
  with ne r show ?thesis by (simp add: mv_def)
qed


lemma descends_fs_ab: "descends fs_ab 0 0" "descends fs_ab 0 1" "descends fs_ab 0 2"
  "descends fs_ab 1 1" "descends fs_ab 1 2"
proof -
  have c0: "children_at fs_ab 0 = Some [(''a'', 1)]" unfolding fs_ab_eq by code_simp
  have c1: "children_at fs_ab 1 = Some [(''b'', 2)]" unfolding fs_ab_eq by code_simp
  show 0: "descends fs_ab 0 0" by (rule descends.self)
  from descends.child [OF 0 c0] show 1: "descends fs_ab 0 1" by simp
  from descends.child [OF 1 c1] show "descends fs_ab 0 2" by simp
  show 2: "descends fs_ab 1 1" by (rule descends.self)
  from descends.child [OF 2 c1] show "descends fs_ab 1 2" by simp
qed



text \<open>
  Outside the amended statement: with \<^verbatim>\<open>/a/a\<close> present (\<open>fs_aa\<close>), the destination
  \<^verbatim>\<open>/a\<close> resolves to the source directory, which has a child of the source's name.
  The \<^verbatim>\<open>try\<close> block throws \<open>AlreadyExists\<close>, the handler takes it and reads the
  destination as (parent, name) instead: \<^verbatim>\<open>mv("/a", "/a")\<close> returns normally with the
  store as it was, and \<^verbatim>\<open>mv("/a", "/a/")\<close> fails with \<open>InvalidPath\<close>. Neither is
  \<open>AlreadyExists\<close> or \<open>CyclicMove\<close>.
\<close>

lemma mv_destination_occupied:
  "resolvePath fs_aa ''/a'' = Inr 1
   \<and> resolvePath fs_aa ''/a/'' = Inr 1
   \<and> children_at fs_aa 1 = Some [(''a'', 2)]
   \<and> resolveDestination_try fs_aa ''/a'' ''a'' = Inl AlreadyExists
   \<and> resolveDestination fs_aa ''/a'' ''a'' = Inr (0, ''a'')
   \<and> mv fs_aa ''/a'' ''/a'' = Some (Inr (), fs_aa)
   \<and> resolveDestination_try fs_aa ''/a/'' ''a'' = Inl AlreadyExists
   \<and> mv fs_aa ''/a'' ''/a/'' = Some (Inl InvalidPath, fs_aa)"
  unfolding fs_aa_eq by code_simp

section \<open>Sizes\<close>

lemma fs_size_eq:
  "fs_size = \<lparr>root = 0, heap =
     [\<lparr>name = ''/'', parent = None, data = DirectoryNode [(''dir'', 1)]\<rparr>,
      \<lparr>name = ''dir'', parent = Some 0, data = DirectoryNode [(''a'', 2), (''b'', 3)]\<rparr>,
      \<lparr>name = ''a'', parent = Some 1, data = FileNode ''0123456789''\<rparr>,
      \<lparr>name = ''b'', parent = Some 1, data = FileNode ''01234567890123456789''\<rparr>]\<rparr>"
  by (simp add: fs_size_def eval_defs)

lemma wf_root_node:
  assumes w: "wf_fs s"
  shows "\<exists>rn. node_at s (root s) = Some rn \<and> parent rn = None"
proof -
  from w have "root s < length (heap s)" by (simp add: wf_fs_def)
  from wf_fs_node [OF w this] show ?thesis
    by (auto simp: wf_node_def split: option.splits)
qed

lemma wf_child_climbs:
  assumes w: "wf_fs s" and c: "children_at s a = Some cs" and m: "(nm, c) \<in> set cs"
  shows "c \<noteq> root s" and "climbs s (Suc k) c \<longleftrightarrow> climbs s k a"
proof -
  from wf_child [OF w c m] obtain cn where cn: "node_at s c = Some cn" "parent cn = Some a"
    by blast
  from wf_root_node [OF w] cn show nr: "c \<noteq> root s" by auto
  from nr cn show "climbs s (Suc k) c \<longleftrightarrow> climbs s k a" by simp
qed

lemma node_size_step:
  assumes "node_size s c = Some (Inr v)"
  shows "size_loop s t ((nm, c) # rest) = size_loop s (t + v) rest"
proof -
  from assms obtain chn where chn: "node_at s c = Some chn"
    by (auto simp: node_size_def split: option.splits)
  show ?thesis
  proof (cases "data chn")
    case (FileNode bytes)
    with assms chn have "v = length bytes" by (simp add: node_size_def)
    with chn FileNode show ?thesis by (subst size_loop.simps) simp
  next
    case (DirectoryNode cs)
    with assms chn have "size_loop s 0 cs = Some (Inr v)" by (simp add: node_size_def)
    with chn DirectoryNode show ?thesis by (subst size_loop.simps) simp
  qed
qed

lemma size_loop_sum:
  assumes "\<forall>(nm, c) \<in> set entries. \<exists>v. node_size s c = Some (Inr v)"
  shows "\<exists>vs. list_all2 (\<lambda>(nm, c) v. node_size s c = Some (Inr v)) entries vs \<and>
              size_loop s t entries = Some (Inr (t + sum_list vs))"
  using assms
proof (induction entries arbitrary: t)
  case Nil
  have "size_loop s t [] = Some (Inr t)" by (subst size_loop.simps) simp
  then show ?case by simp
next
  case (Cons x entries)
  obtain nm c where x: "x = (nm, c)" by (cases x)
  from Cons.prems x obtain v where v: "node_size s c = Some (Inr v)" by auto
  from Cons.prems have "\<forall>(nm, c) \<in> set entries. \<exists>v. node_size s c = Some (Inr v)" by simp
  from Cons.IH [OF this, of "t + v"] obtain vs where
    vs: "list_all2 (\<lambda>(nm, c) v. node_size s c = Some (Inr v)) entries vs"
      "size_loop s (t + v) entries = Some (Inr (t + v + sum_list vs))" by blast
  from vs(1) v x have 1: "list_all2 (\<lambda>(nm, c) v. node_size s c = Some (Inr v)) (x # entries) (v # vs)"
    by simp
  from node_size_step [OF v, of t nm entries] vs(2) x
  have 2: "size_loop s t (x # entries) = Some (Inr (t + sum_list (v # vs)))"
    by (simp add: add.assoc)
  from 1 2 show ?case by blast
qed

lemma node_size_of_children:
  assumes w: "wf_fs s" and n: "node_at s a = Some n"
    and ch: "\<And>cs nm c. children_at s a = Some cs \<Longrightarrow> (nm, c) \<in> set cs \<Longrightarrow>
               \<exists>v. node_size s c = Some (Inr v)"
  shows "\<exists>v. node_size s a = Some (Inr v)"
proof (cases "data n")
  case (FileNode bytes)
  with n show ?thesis by (simp add: node_size_def)
next
  case (DirectoryNode cs)
  with n have c: "children_at s a = Some cs" by (simp add: children_at_def)
  from ch [OF c] have "\<forall>(nm, c) \<in> set cs. \<exists>v. node_size s c = Some (Inr v)" by blast
  from size_loop_sum [OF this, of 0] n DirectoryNode show ?thesis
    by (auto simp: node_size_def)
qed

lemma node_size_deep:
  assumes w: "wf_fs s" and K: "\<forall>a < length (heap s). climbs s K a"
  shows "node_at s a = Some n \<Longrightarrow> \<not> climbs s (K - m) a \<Longrightarrow>
         \<exists>v. node_size s a = Some (Inr v)"
proof (induction m arbitrary: a n)
  case 0
  from 0(1) have "a < length (heap s)" by (auto dest: node_at_SomeD)
  with K have "climbs s K a" by simp
  with 0(2) show ?case by simp
next
  case (Suc m)
  show ?case
  proof (rule node_size_of_children [OF w Suc.prems(1)])
    fix cs nm c
    assume c: "children_at s a = Some cs" and m: "(nm, c) \<in> set cs"
    from wf_child [OF w c m] obtain cn where cn: "node_at s c = Some cn" by blast
    have "\<not> climbs s (K - m) c"
    proof (cases "m < K")
      case True
      then have "K - m = Suc (K - Suc m)" by simp
      with wf_child_climbs(2) [OF w c m] Suc.prems(2) show ?thesis by simp
    next
      case False
      then have "K - m = 0" by simp
      with wf_child_climbs(1) [OF w c m] show ?thesis by simp
    qed
    from Suc.IH [OF cn this] show "\<exists>v. node_size s c = Some (Inr v)" .
  qed
qed

lemma node_size_total:
  assumes w: "wf_fs s" and n: "node_at s a = Some n"
  shows "\<exists>v. node_size s a = Some (Inr v)"
proof (rule node_size_of_children [OF w n])
  fix cs nm c
  assume c: "children_at s a = Some cs" and m: "(nm, c) \<in> set cs"
  from wf_fs_climbs_bound [OF w] obtain K where K: "\<forall>a < length (heap s). climbs s K a" ..
  from wf_child [OF w c m] obtain cn where cn: "node_at s c = Some cn" by blast
  from wf_child_climbs(1) [OF w c m] have "\<not> climbs s (K - K) c"
    by simp
  from node_size_deep [OF w K cn this] show "\<exists>v. node_size s c = Some (Inr v)" .
qed

lemma node_size_directory:
  assumes w: "wf_fs s" and c: "children_at s a = Some cs"
  shows "\<exists>vs. list_all2 (\<lambda>(nm, c) v. node_size s c = Some (Inr v)) cs vs \<and>
              node_size s a = Some (Inr (sum_list vs))"
proof -
  have "\<forall>(nm, c) \<in> set cs. \<exists>v. node_size s c = Some (Inr v)"
  proof (clarify)
    fix nm ch
    assume "(nm, ch) \<in> set cs"
    from wf_child [OF w c this] obtain cn where "node_at s ch = Some cn" by blast
    from node_size_total [OF w this] show "\<exists>v. node_size s ch = Some (Inr v)" .
  qed
  from size_loop_sum [OF this, of 0] c show ?thesis
    by (auto simp: node_size_def dest!: children_at_SomeD)
qed

text \<open>
  C10. \<^verbatim>\<open>size(p)\<close> of a path that resolves to a file is the length of the file's
  content. In a well-formed store, for a path that resolves to a directory the
  computation returns: every child has a size, and the size of the directory is the sum
  of the sizes of its children. Nothing is cached: the size is computed from the store
  at the call. For a directory that holds a file of 10 bytes and a file of 20 bytes the
  size is 30, and 10 after the second file is removed.
\<close>

theorem C10_size_additive:
  "(resolvePath s p = Inr a \<and> node_at s a = Some n \<and> data n = FileNode bytes \<longrightarrow>
      size_fs s p = Some (Inr (length bytes)))
   \<and> (wf_fs s \<and> resolvePath s p = Inr a \<and> children_at s a = Some cs \<longrightarrow>
        (\<exists>vs. list_all2 (\<lambda>(nm, c) v. node_size s c = Some (Inr v)) cs vs \<and>
              size_fs s p = Some (Inr (sum_list vs))))
   \<and> size_fs fs_size ''/dir/a'' = Some (Inr 10)
   \<and> size_fs fs_size ''/dir/b'' = Some (Inr 20)
   \<and> size_fs fs_size ''/dir'' = Some (Inr 30)
   \<and> fst (rm fs_size ''/dir/b'' False) = Inr ()
   \<and> size_fs (snd (rm fs_size ''/dir/b'' False)) ''/dir'' = Some (Inr 10)"
proof -
  have 1: "resolvePath s p = Inr a \<and> node_at s a = Some n \<and> data n = FileNode bytes \<longrightarrow>
      size_fs s p = Some (Inr (length bytes))"
    by (simp add: size_fs_def node_size_def)
  have 2: "wf_fs s \<and> resolvePath s p = Inr a \<and> children_at s a = Some cs \<longrightarrow>
        (\<exists>vs. list_all2 (\<lambda>(nm, c) v. node_size s c = Some (Inr v)) cs vs \<and>
              size_fs s p = Some (Inr (sum_list vs)))"
  proof (intro impI, elim conjE)
    assume w: "wf_fs s" and r: "resolvePath s p = Inr a" and c: "children_at s a = Some cs"
    from r have "size_fs s p = node_size s a" by (simp add: size_fs_def)
    with node_size_directory [OF w c]
    show "\<exists>vs. list_all2 (\<lambda>(nm, c) v. node_size s c = Some (Inr v)) cs vs \<and>
              size_fs s p = Some (Inr (sum_list vs))" by simp
  qed
  have 3: "size_fs fs_size ''/dir/a'' = Some (Inr 10)
   \<and> size_fs fs_size ''/dir/b'' = Some (Inr 20)
   \<and> size_fs fs_size ''/dir'' = Some (Inr 30)
   \<and> fst (rm fs_size ''/dir/b'' False) = Inr ()
   \<and> size_fs (snd (rm fs_size ''/dir/b'' False)) ''/dir'' = Some (Inr 10)"
    unfolding fs_size_eq by code_simp
  from 1 2 3 show ?thesis by (intro conjI) simp_all
qed


text \<open>The witness for C10: the directory and the first file of \<open>fs_size\<close>.\<close>

theorem C10_size_additive_witness:
  "wf_fs fs_size
   \<and> resolvePath fs_size ''/dir'' = Inr 1
   \<and> children_at fs_size 1 = Some [(''a'', 2), (''b'', 3)]
   \<and> (\<exists>vs. list_all2 (\<lambda>(nm, c) v. node_size fs_size c = Some (Inr v)) [(''a'', 2), (''b'', 3)] vs \<and>
             size_fs fs_size ''/dir'' = Some (Inr (sum_list vs)))
   \<and> resolvePath fs_size ''/dir/a'' = Inr 2
   \<and> node_at fs_size 2 = Some \<lparr>name = ''a'', parent = Some 1, data = FileNode ''0123456789''\<rparr>
   \<and> size_fs fs_size ''/dir/a'' = Some (Inr (length ''0123456789''))"
proof -
  have w: "wf_fs fs_size" by (rule wf_fs_boundedI) (unfold fs_size_eq, code_simp)
  have r: "resolvePath fs_size ''/dir'' = Inr 1" unfolding fs_size_eq by code_simp
  have c: "children_at fs_size 1 = Some [(''a'', 2), (''b'', 3)]"
    unfolding fs_size_eq by code_simp
  have r2: "resolvePath fs_size ''/dir/a'' = Inr 2" unfolding fs_size_eq by code_simp
  have n: "node_at fs_size 2 = Some \<lparr>name = ''a'', parent = Some 1, data = FileNode ''0123456789''\<rparr>"
    unfolding fs_size_eq by code_simp
  have d: "\<exists>vs. list_all2 (\<lambda>(nm, c) v. node_size fs_size c = Some (Inr v)) [(''a'', 2), (''b'', 3)] vs \<and>
             size_fs fs_size ''/dir'' = Some (Inr (sum_list vs))"
    using C10_size_additive [where s = fs_size and p = "''/dir''" and a = 1
        and cs = "[(''a'', 2), (''b'', 3)]", THEN conjunct2, THEN conjunct1] w r c
    by blast
  have f: "size_fs fs_size ''/dir/a'' = Some (Inr (length ''0123456789''))"
    using C10_size_additive [where s = fs_size and p = "''/dir/a''" and a = 2
        and n = "\<lparr>name = ''a'', parent = Some 1, data = FileNode ''0123456789''\<rparr>"
        and bytes = "''0123456789''", THEN conjunct1] r2 n
    by simp
  from w r c d r2 n f show ?thesis by (intro conjI)
qed

section \<open>A path and its parent path\<close>

text \<open>
  One read of \<^verbatim>\<open>std::getline(ss, component, '/')\<close> on a non-empty rest of the input:
  the component is the text before the next \<^verbatim>\<open>/\<close>, and the input goes on behind
  that \<^verbatim>\<open>/\<close>.
\<close>

lemma getlines_read:
  "s \<noteq> [] \<Longrightarrow>
   getlines s = takeWhile (\<lambda>c. c \<noteq> CHR ''/'') s #
                getlines (drop 1 (dropWhile (\<lambda>c. c \<noteq> CHR ''/'') s))"
proof (induction s)
  case Nil
  then show ?case by simp
next
  case (Cons c cs)
  show ?case
  proof (cases "c = CHR ''/''")
    case True
    then show ?thesis by simp
  next
    case False
    show ?thesis
    proof (cases "cs = []")
      case True
      with False show ?thesis by simp
    next
      case nonempty: False
      from Cons.IH [OF this] False show ?thesis by simp
    qed
  qed
qed

lemma find_last_of_Some:
  "find_last_of p c = Some k \<Longrightarrow> p = take k p @ c # drop (Suc k) p \<and> c \<notin> set (drop (Suc k) p)"
proof (induction p arbitrary: k)
  case Nil
  then show ?case by simp
next
  case (Cons x xs)
  show ?case
  proof (cases "find_last_of xs c")
    case None
    have "c \<notin> set xs" using None
    proof (induction xs)
      case Nil
      show ?case by simp
    next
      case (Cons y ys)
      then show ?case by (simp split: option.splits if_splits)
    qed
    with Cons.prems None show ?thesis by (simp split: if_splits)
  next
    case (Some i)
    with Cons.prems have k: "k = Suc i" by simp
    from Cons.IH [OF Some] k show ?thesis by simp
  qed
qed

lemma getlines_eq_Nil [simp]: "getlines x = [] \<longleftrightarrow> x = []"
  by (cases x) (simp_all split: list.splits)

lemma getlines_no_slash: "CHR ''/'' \<notin> set y \<Longrightarrow> y \<noteq> [] \<Longrightarrow> getlines y = [y]"
proof (induction y)
  case Nil
  then show ?case by simp
next
  case (Cons c y)
  show ?case
  proof (cases "y = []")
    case True
    with Cons.prems show ?thesis by simp
  next
    case False
    with Cons show ?thesis by auto
  qed
qed

lemma getlines_append_slash:
  "getlines (x @ CHR ''/'' # y) =
     getlines x @ (if x = [] \<or> last x = CHR ''/'' then [[]] else []) @ getlines y"
proof (induction x)
  case Nil
  show ?case by simp
next
  case (Cons c x)
  show ?case
  proof (cases "c = CHR ''/''")
    case True
    with Cons show ?thesis by simp
  next
    case False
    show ?thesis
    proof (cases "x = []")
      case True
      with False show ?thesis by simp
    next
      case nonempty: False
      then obtain t ts where t: "getlines x = t # ts" by (cases "getlines x") simp_all
      with False nonempty Cons show ?thesis by simp
    qed
  qed
qed

lemma resolve_loop_skip_empty: "resolve_loop s cur ([] # ts) = resolve_loop s cur ts"
  by simp

lemma resolve_loop_append:
  "resolve_loop s cur xs = Inr d \<Longrightarrow> children_at s d \<noteq> None \<Longrightarrow>
   resolve_loop s cur (xs @ ys) = resolve_loop s d ys"
proof (induction xs arbitrary: cur)
  case Nil
  then show ?case by simp
next
  case (Cons c xs)
  consider (skip) "c = [] \<or> c = ''.''" | (up) "c = ''..''" | (down) "c \<noteq> []" "c \<noteq> ''.''" "c \<noteq> ''..''"
    by blast
  then show ?case
  proof cases
    case skip
    with Cons show ?thesis by simp
  next
    case up
    show ?thesis
    proof (cases "cur = root s")
      case True
      with up Cons show ?thesis by simp
    next
      case False
      with up Cons.prems(1) obtain cn p where cn: "node_at s cur = Some cn" "parent cn = Some p"
        and r: "resolve_loop s p xs = Inr d"
        by (auto split: option.splits)
      from Cons.IH [OF r Cons.prems(2)] up False cn show ?thesis by simp
    qed
  next
    case down
    from down Cons.prems(1) obtain cs child chn where
      cs: "children_at s cur = Some cs" "map_of cs c = Some child" "node_at s child = Some chn"
      by (auto split: option.splits)
    show ?thesis
    proof (cases "getType chn = Directory")
      case True
      with down cs Cons.prems(1) have r: "resolve_loop s child xs = Inr d" by simp
      from Cons.IH [OF r Cons.prems(2)] down cs True show ?thesis by simp
    next
      case False
      with down cs Cons.prems(1) have "d = child" by (simp split: if_splits)
      with cs(3) False Cons.prems(2) show ?thesis
        by (auto simp: children_at_def getType_def split: node_data.splits)
    qed
  qed
qed

lemma skip_slash_append:
  "q \<noteq> [] \<Longrightarrow> skip_slash (q @ r) = skip_slash q @ r"
  by (cases q) (simp_all add: skip_slash_def)

lemma resolvePath_via_parent:
  assumes pn: "resolveParentAndName s p = Inr (d, nm)"
  shows "resolvePath s p = resolve_loop s d [nm] \<and> nm \<noteq> [] \<and> children_at s d \<noteq> None"
proof -
  from pn have ne: "p \<noteq> []" "p \<noteq> ''/''" by (auto simp: resolveParentAndName_def)
  from pn ne obtain k where k: "find_last_of p (CHR ''/'') = Some k"
    by (auto simp: resolveParentAndName_def split: option.splits)
  let ?pp = "if k = 0 then ''/'' else take k p"
  from pn ne k have nm: "nm = drop (Suc k) p" "nm \<noteq> []"
    and rp: "resolvePath s ?pp = Inr d"
    and dir: "children_at s d \<noteq> None"
    by (auto simp: resolveParentAndName_def Let_def children_at_def getType_def
        split: sum.splits option.splits if_splits node_data.splits)
  from find_last_of_Some [OF k] nm have p: "p = take k p @ CHR ''/'' # nm"
    and ns: "CHR ''/'' \<notin> set nm" by simp_all
  have nm1: "getlines nm = [nm]" by (rule getlines_no_slash [OF ns nm(2)])
  have "resolvePath s p = resolve_loop s d [nm]"
  proof (cases "k = 0")
    case True
    with p have p0: "p = CHR ''/'' # nm" by simp
    from True rp have d: "d = root s" by (simp add: resolvePath_root)
    have "skip_slash p = nm" by (subst p0) (simp add: skip_slash_def)
    with ne nm1 d show ?thesis by (simp add: resolvePath_def)
  next
    case False
    let ?q = "take k p"
    from False p have q: "?q \<noteq> []" by (cases p) auto
    from False rp have rq: "resolvePath s ?q = Inr d" by simp
    have "skip_slash p = skip_slash ?q @ CHR ''/'' # nm"
      by (subst p) (rule skip_slash_append [OF q])
    then have g: "getlines (skip_slash p) =
        getlines (skip_slash ?q) @
        (if skip_slash ?q = [] \<or> last (skip_slash ?q) = CHR ''/'' then [[]] else []) @ [nm]"
      by (simp add: getlines_append_slash nm1)
    show ?thesis
    proof (cases "?q = ''/''")
      case True
      with rq have d: "d = root s" by (simp add: resolvePath_root)
      from True have "skip_slash ?q = []" by (simp add: skip_slash_def)
      with g ne d show ?thesis by (simp add: resolvePath_def)
    next
      case nr: False
      with q rq have rl: "resolve_loop s (root s) (getlines (skip_slash ?q)) = Inr d"
        by (simp add: resolvePath_def)
      have "resolvePath s p = resolve_loop s (root s) (getlines (skip_slash p))"
        using ne by (simp add: resolvePath_def)
      also have "\<dots> = resolve_loop s d
          ((if skip_slash ?q = [] \<or> last (skip_slash ?q) = CHR ''/'' then [[]] else []) @ [nm])"
        unfolding g by (rule resolve_loop_append [OF rl dir])
      also have "\<dots> = resolve_loop s d [nm]" by simp
      finally show ?thesis .
    qed
  qed
  with nm(2) dir show ?thesis by simp
qed

lemma resolve_loop_single:
  assumes "nm \<noteq> []" "nm \<noteq> ''.''" "nm \<noteq> ''..''" "children_at s d = Some cs"
  shows "resolve_loop s d [nm] =
     (case map_of cs nm of
        None \<Rightarrow> Inl NotFound
      | Some c \<Rightarrow> (case node_at s c of None \<Rightarrow> Inl UndefinedBehaviour | Some _ \<Rightarrow> Inr c))"
  using assms by (simp split: option.splits)

section \<open>Removing an entry\<close>

lemma climbs_cong:
  assumes "root s' = root s"
    and "\<And>a. map_option parent (node_at s' a) = map_option parent (node_at s a)"
  shows "climbs s' k a = climbs s k a"
proof (induction k arbitrary: a)
  case 0
  show ?case by (simp add: assms(1))
next
  case (Suc k)
  from assms(2) [of a] show ?case
    by (cases "node_at s a"; cases "node_at s' a") (auto simp: assms(1) Suc split: option.splits)
qed

lemma erase_child_node:
  "node_at (erase_child s d nm) b =
     (if b = d then map_option (\<lambda>n. case data n of FileNode _ \<Rightarrow> n
          | DirectoryNode cs \<Rightarrow> n\<lparr>data := DirectoryNode (AList.delete nm cs)\<rparr>) (node_at s d)
      else node_at s b)"
proof (cases "node_at s d")
  case None
  then show ?thesis by (simp add: erase_child_def)
next
  case (Some n)
  then show ?thesis
    by (simp add: node_at_erase_child_same node_at_erase_child_other)
qed

lemma erase_child_parent_name:
  "map_option parent (node_at (erase_child s d nm) b) = map_option parent (node_at s b)"
  "map_option name (node_at (erase_child s d nm) b) = map_option name (node_at s b)"
  "map_option getType (node_at (erase_child s d nm) b) = map_option getType (node_at s b)"
proof -
  let ?f = "\<lambda>n. case data n of FileNode _ \<Rightarrow> n
          | DirectoryNode cs \<Rightarrow> n\<lparr>data := DirectoryNode (AList.delete nm cs)\<rparr>"
  have f: "parent (?f n) = parent n" "name (?f n) = name n" "getType (?f n) = getType n" for n
    by (cases "data n"; simp add: getType_def)+
  show "map_option parent (node_at (erase_child s d nm) b) = map_option parent (node_at s b)"
    by (cases "node_at s d") (simp_all add: erase_child_node f)
  show "map_option name (node_at (erase_child s d nm) b) = map_option name (node_at s b)"
    by (cases "node_at s d") (simp_all add: erase_child_node f)
  show "map_option getType (node_at (erase_child s d nm) b) = map_option getType (node_at s b)"
    by (cases "node_at s d") (simp_all add: erase_child_node f)
qed

lemma erase_child_node_props:
  assumes "node_at (erase_child s d nm) b = Some n'"
  shows "\<exists>n. node_at s b = Some n \<and> parent n' = parent n \<and> name n' = name n \<and>
             getType n' = getType n"
  using assms erase_child_parent_name [of s d nm b]
  by (cases "node_at s b") auto

lemma erase_child_children_subset:
  assumes "children_at (erase_child s d nm) b = Some cs'"
  shows "\<exists>cs. children_at s b = Some cs \<and> set cs' \<subseteq> set cs \<and>
              (distinct (map fst cs) \<longrightarrow> distinct (map fst cs')) \<and>
              (b = d \<longrightarrow> cs' = AList.delete nm cs) \<and> (b \<noteq> d \<longrightarrow> cs' = cs)"
proof (cases "b = d")
  case True
  with assms obtain cs where cs: "children_at s d = Some cs" "cs' = AList.delete nm cs"
    by (auto simp: children_at_erase_child)
  have "set (AList.delete nm cs) \<subseteq> set cs" by (auto simp: AList.delete_eq)
  moreover have "distinct (map fst cs) \<longrightarrow> distinct (map fst (AList.delete nm cs))"
    by (simp add: AList.distinct_delete)
  ultimately show ?thesis using True cs by simp
next
  case False
  with assms show ?thesis by (simp add: children_at_erase_child)
qed

lemma children_at_erase_child_None:
  "children_at (erase_child s d nm) b = None \<longleftrightarrow> children_at s b = None"
  by (simp add: children_at_erase_child)

lemma wf_fs_erase_child:
  assumes w: "wf_fs s"
  shows "wf_fs (erase_child s d nm)"
proof -
  let ?s' = "erase_child s d nm"
  have cl: "\<And>k a. climbs ?s' k a = climbs s k a"
    by (rule climbs_cong) (simp_all add: erase_child_parent_name)
  have "wf_node ?s' a" if a: "a < length (heap s)" for a
  proof -
    from wf_fs_node [OF w a] obtain n where n: "node_at s a = Some n"
      and p: "if a = root s then parent n = None \<and> getType n = Directory
              else (case parent n of None \<Rightarrow> False | Some d \<Rightarrow> children_at s d \<noteq> None)"
      and ch: "case data n of FileNode _ \<Rightarrow> True
               | DirectoryNode cs \<Rightarrow> distinct (map fst cs) \<and>
                   list_all (\<lambda>(nm, c). case node_at s c of None \<Rightarrow> False
                     | Some cn \<Rightarrow> parent cn = Some a \<and> name cn = nm) cs"
      by (auto simp: wf_node_def split: option.splits)
    from a obtain n' where n': "node_at ?s' a = Some n'" by (simp add: node_at_def)
    from erase_child_node_props [OF n'] n
    have pn: "parent n' = parent n" "name n' = name n" "getType n' = getType n" by auto
    have 1: "if a = root ?s' then parent n' = None \<and> getType n' = Directory
              else (case parent n' of None \<Rightarrow> False | Some d \<Rightarrow> children_at ?s' d \<noteq> None)"
      using p pn by (auto simp: children_at_erase_child_None split: option.splits if_splits)
    have 3: "case data n' of FileNode _ \<Rightarrow> True
               | DirectoryNode cs \<Rightarrow> distinct (map fst cs) \<and>
                   list_all (\<lambda>(nm, c). case node_at ?s' c of None \<Rightarrow> False
                     | Some cn \<Rightarrow> parent cn = Some a \<and> name cn = nm) cs"
    proof (cases "data n'")
      case (FileNode x)
      then show ?thesis by simp
    next
      case (DirectoryNode cs')
      with n' have "children_at ?s' a = Some cs'" by (simp add: children_at_def)
      from erase_child_children_subset [OF this] obtain cs where
        cs: "children_at s a = Some cs" "set cs' \<subseteq> set cs"
          "distinct (map fst cs) \<longrightarrow> distinct (map fst cs')" by blast
      from cs(1) n have dn: "data n = DirectoryNode cs"
        by (auto simp: children_at_def split: node_data.splits)
      with ch have d: "distinct (map fst cs)" and
        la: "\<forall>(nm, c) \<in> set cs. case node_at s c of None \<Rightarrow> False
                     | Some cn \<Rightarrow> parent cn = Some a \<and> name cn = nm"
        by (simp_all add: list_all_iff)
      have "\<forall>(nm, c) \<in> set cs'. case node_at ?s' c of None \<Rightarrow> False
                     | Some cn \<Rightarrow> parent cn = Some a \<and> name cn = nm"
      proof (clarify)
        fix k c
        assume "(k, c) \<in> set cs'"
        with cs(2) have "(k, c) \<in> set cs" by blast
        from wf_child [OF w cs(1) this]
        obtain cn where cn: "node_at s c = Some cn" "parent cn = Some a" "name cn = k"
          by blast
        from cn(1) obtain cn' where cn': "node_at ?s' c = Some cn'"
          by (auto simp: node_at_def split: if_splits)
        from erase_child_node_props [OF cn'] cn cn'
        show "case node_at ?s' c of None \<Rightarrow> False
                     | Some cn \<Rightarrow> parent cn = Some a \<and> name cn = k" by auto
      qed
      with d cs(3) DirectoryNode show ?thesis by (simp add: list_all_iff)
    qed
    from n' 1 3 show ?thesis by (simp add: wf_node_def)
  qed
  moreover have "\<exists>k. climbs ?s' k a" if "a < length (heap s)" for a
    using wf_fs_climbs [OF w that] by (simp add: cl)
  ultimately show ?thesis using w by (simp add: wf_fs_def list_all_iff)
qed


lemma descends_cases_root:
  assumes w: "wf_fs s" and d: "descends s a (root s)"
  shows "a = root s"
  using d
proof (cases rule: descends.cases)
  case self
  then show ?thesis by simp
next
  case (child d cs nm)
  from wf_child_climbs(1) [OF w child(2,3)] show ?thesis by simp
qed

lemma removed_unreachable:
  assumes w: "wf_fs s" and cd: "children_at s d = Some cs" and mc: "map_of cs nm = Some c"
  shows "descends (erase_child s d nm) (root s) a \<Longrightarrow> \<not> descends s c a"
proof (induction rule: descends.induct)
  case self
  show ?case
  proof
    assume "descends s c (root s)"
    from descends_cases_root [OF w this] wf_child_climbs(1) [OF w cd map_of_SomeD [OF mc]]
    show False by simp
  qed
next
  case (child e ce' t a)
  from erase_child_children_subset [OF child.hyps(2)] obtain ce where
    ce: "children_at s e = Some ce" "set ce' \<subseteq> set ce" "e = d \<longrightarrow> ce' = AList.delete nm ce"
    by blast
  from child.hyps(3) ce(2) have ta: "(t, a) \<in> set ce" by blast
  from wf_child [OF w ce(1) ta] obtain an where
    an: "node_at s a = Some an" "parent an = Some e" "name an = t" by blast
  show ?case
  proof
    assume "descends s c a"
    then show False
    proof (cases rule: descends.cases)
      case self
      from wf_child [OF w cd map_of_SomeD [OF mc]] self an have "e = d" "t = nm" by auto
      with ce cd child.hyps(3) have "(nm, a) \<in> set (AList.delete nm cs)" by simp
      then show False by (simp add: AList.delete_eq)
    next
      case (child f cf t')
      from wf_child [OF w child(2,3)] an have "f = e" by auto
      with child(1) \<open>\<not> descends s c e\<close> show False by simp
    qed
  qed
qed

lemma map_of_delete_Some: "map_of (AList.delete k al) x = Some v \<Longrightarrow> map_of al x = Some v"
  by (simp add: AList.delete_conv' split: if_splits)

lemma resolve_loop_after_erase:
  assumes w: "wf_fs s"
  shows "descends (erase_child s d nm) (root s) cur \<Longrightarrow>
     resolve_loop (erase_child s d nm) cur ts = Inr a \<Longrightarrow>
     resolve_loop s cur ts = Inr a \<and> descends (erase_child s d nm) (root s) a"
proof (induction ts arbitrary: cur)
  case Nil
  then show ?case by simp
next
  case (Cons c ts)
  let ?s' = "erase_child s d nm"
  have w': "wf_fs ?s'" by (rule wf_fs_erase_child [OF w])
  have rt: "root ?s' = root s" by simp
  consider (skip) "c = [] \<or> c = ''.''" | (up) "c = ''..''" | (down) "c \<noteq> []" "c \<noteq> ''.''" "c \<noteq> ''..''"
    by blast
  then show ?case
  proof cases
    case skip
    with Cons show ?thesis by simp
  next
    case up
    show ?thesis
    proof (cases "cur = root s")
      case True
      with up Cons show ?thesis by simp
    next
      case False
      with up Cons.prems(2) obtain cn' p where cn': "node_at ?s' cur = Some cn'" "parent cn' = Some p"
        and r: "resolve_loop ?s' p ts = Inr a"
        by (auto split: option.splits)
      from erase_child_node_props [OF cn'(1)] cn'(2) obtain cn where
        cn: "node_at s cur = Some cn" "parent cn = Some p" by auto
      from Cons.prems(1) False have "descends ?s' (root s) p"
      proof (cases rule: descends.cases)
        case self
        with False show ?thesis by simp
      next
        case (child e ce t)
        from wf_child [OF w' child(2,3)] cn' have "p = e" by auto
        with child(1) show ?thesis by simp
      qed
      from Cons.IH [OF this r] up False cn show ?thesis by simp
    qed
  next
    case down
    from down Cons.prems(2) obtain cs' child chn' where
      cs': "children_at ?s' cur = Some cs'" "map_of cs' c = Some child"
        "node_at ?s' child = Some chn'"
      by (auto split: option.splits)
    from erase_child_children_subset [OF cs'(1)] obtain cs0 where
      cs0: "children_at s cur = Some cs0" "cur = d \<longrightarrow> cs' = AList.delete nm cs0"
        "cur \<noteq> d \<longrightarrow> cs' = cs0" by blast
    from cs0(2,3) cs'(2) have m0: "map_of cs0 c = Some child"
      by (cases "cur = d") (auto dest: map_of_delete_Some)
    from erase_child_node_props [OF cs'(3)] obtain chn where
      chn: "node_at s child = Some chn" "getType chn' = getType chn" by auto
    have reach: "descends ?s' (root s) child"
      by (rule descends.child [OF Cons.prems(1) cs'(1) map_of_SomeD [OF cs'(2)]])
    show ?thesis
    proof (cases "getType chn = Directory")
      case True
      with down cs' chn Cons.prems(2) have r: "resolve_loop ?s' child ts = Inr a" by simp
      from Cons.IH [OF reach r] down cs0(1) m0 chn True show ?thesis by simp
    next
      case False
      with down cs' chn Cons.prems(2) have "a = child" "ts = []"
        by (auto split: if_splits)
      with down cs0(1) m0 chn False reach show ?thesis by simp
    qed
  qed
qed

lemma resolvePath_after_erase:
  assumes w: "wf_fs s" and r: "resolvePath (erase_child s d nm) q = Inr a"
  shows "resolvePath s q = Inr a \<and> descends (erase_child s d nm) (root s) a"
proof -
  have 0: "descends (erase_child s d nm) (root s) (root s)" by (rule descends.self)
  show ?thesis
  proof (cases "q = [] \<or> q = ''/''")
    case True
    with r 0 show ?thesis by (auto simp: resolvePath_def)
  next
    case False
    with r have "resolve_loop (erase_child s d nm) (root s) (getlines (skip_slash q)) = Inr a"
      by (simp add: resolvePath_def)
    from resolve_loop_after_erase [OF w 0 this] False show ?thesis
      by (simp add: resolvePath_def)
  qed
qed

lemma removed_not_exists:
  assumes w: "wf_fs s" and cd: "children_at s d = Some cs" and mc: "map_of cs nm = Some c"
    and r: "resolvePath s q = Inr a" and desc: "descends s c a"
  shows "exists_fs (erase_child s d nm) q = Inr False"
proof (cases "resolvePath (erase_child s d nm) q")
  case (Inl e)
  with exists_fs_wf [OF wf_fs_erase_child [OF w], of d nm q] show ?thesis by simp
next
  case (Inr a')
  from resolvePath_after_erase [OF w Inr] r have "a' = a"
    and "descends (erase_child s d nm) (root s) a" by simp_all
  with removed_unreachable [OF w cd mc] desc show ?thesis by blast
qed


lemma rm_root: "rm s ''/'' r = (Inl InvalidPath, s)"
  by (simp add: rm_def)

lemma resolveParentAndName_not_root: "resolveParentAndName s p = Inr x \<Longrightarrow> p \<noteq> ''/''"
  by (auto simp: resolveParentAndName_def)

lemma rm_NotFound:
  assumes "resolveParentAndName s p = Inr (d, nm)" "children_at s d = Some cs"
    "map_of cs nm = None"
  shows "rm s p r = (Inl NotFound, s)"
  using assms resolveParentAndName_not_root [OF assms(1)] by (simp add: rm_def)

lemma rm_DirectoryNotEmpty:
  assumes "resolveParentAndName s p = Inr (d, nm)" "children_at s d = Some cs"
    "map_of cs nm = Some c" "children_at s c = Some (x # xs)"
  shows "rm s p False = (Inl DirectoryNotEmpty, s)"
proof -
  from assms(4) obtain chn where "node_at s c = Some chn" "data chn = DirectoryNode (x # xs)"
    by (auto dest: children_at_SomeD)
  with assms(1-3) resolveParentAndName_not_root [OF assms(1)] show ?thesis
    by (simp add: rm_def getType_def)
qed

lemma rm_success:
  assumes w: "wf_fs s" and pn: "resolveParentAndName s p = Inr (d, nm)"
    and cd: "children_at s d = Some cs" and mc: "map_of cs nm = Some c"
    and ok: "r \<or> children_at s c = None \<or> children_at s c = Some []"
  shows "rm s p r = (Inr (), erase_child s d nm)"
proof -
  from wf_child_lookup [OF w cd mc] obtain chn where chn: "node_at s c = Some chn" by blast
  from ok chn have "\<not> (getType chn = Directory \<and> \<not> r \<and> children (data chn) \<noteq> [])"
    by (auto simp: children_at_def getType_def split: node_data.splits)
  with pn cd mc chn resolveParentAndName_not_root [OF pn] show ?thesis
    by (simp add: rm_def)
qed





section \<open>Writing and reading back: the other names\<close>

lemma root_with_file [simp]: "root (with_file s d nm b) = root s"
  by (simp add: with_file_def)

lemma children_at_with_file:
  assumes "children_at s d = Some cs"
  shows "children_at (with_file s d nm b) a =
     (if a = d then Some (AList.update nm (length (heap s)) cs)
      else if a = length (heap s) then None else children_at s a)"
proof -
  from assms have "d \<noteq> length (heap s)" by (auto dest: children_at_valid)
  with assms show ?thesis
    by (simp add: with_file_def children_at_set_child children_at_alloc)
qed

lemma node_at_with_file_new:
  assumes "children_at s d = Some cs"
  shows "node_at (with_file s d nm b) (length (heap s)) =
           Some \<lparr>name = nm, parent = Some d, data = FileNode b\<rparr>"
proof -
  from assms have "d \<noteq> length (heap s)" by (auto dest: children_at_valid)
  then show ?thesis by (simp add: with_file_def node_at_set_child_other node_at_alloc)
qed

lemma node_at_with_file_old:
  assumes "node_at s a = Some n"
  shows "\<exists>n'. node_at (with_file s d nm b) a = Some n' \<and> parent n' = parent n \<and>
               getType n' = getType n"
proof -
  from assms have a: "a \<noteq> length (heap s)" by (auto dest: node_at_SomeD)
  let ?s1 = "s\<lparr>heap := heap s @ [\<lparr>name = nm, parent = Some d, data = FileNode b\<rparr>]\<rparr>"
  from assms a have n1: "node_at ?s1 a = Some n" by (simp add: node_at_alloc)
  show ?thesis
  proof (cases "a = d")
    case False
    with n1 show ?thesis by (simp add: with_file_def node_at_set_child_other)
  next
    case True
    with n1 node_at_set_child_same [of ?s1 d n nm "length (heap s)"] show ?thesis
      by (cases "data n") (simp_all add: with_file_def getType_def)
  qed
qed

lemma resolve_loop_with_file:
  assumes cd: "children_at s d = Some cs"
    and nd: "\<And>child chn. map_of cs nm = Some child \<Longrightarrow> node_at s child = Some chn \<Longrightarrow>
               getType chn \<noteq> Directory"
  shows "resolve_loop s cur ts = Inr x \<Longrightarrow> children_at s x \<noteq> None \<Longrightarrow>
         resolve_loop (with_file s d nm b) cur ts = Inr x"
proof (induction ts arbitrary: cur)
  case Nil
  then show ?case by simp
next
  case (Cons c ts)
  let ?s' = "with_file s d nm b"
  consider (skip) "c = [] \<or> c = ''.''" | (up) "c = ''..''" | (down) "c \<noteq> []" "c \<noteq> ''.''" "c \<noteq> ''..''"
    by blast
  then show ?case
  proof cases
    case skip
    with Cons show ?thesis by simp
  next
    case up
    show ?thesis
    proof (cases "cur = root s")
      case True
      with up Cons show ?thesis by simp
    next
      case False
      with up Cons.prems(1) obtain cn p where cn: "node_at s cur = Some cn" "parent cn = Some p"
        and r: "resolve_loop s p ts = Inr x"
        by (auto split: option.splits)
      from node_at_with_file_old [OF cn(1), of d nm b] cn(2) obtain cn' where
        cn': "node_at ?s' cur = Some cn'" "parent cn' = Some p" by auto
      from Cons.IH [OF r Cons.prems(2)] up False cn' show ?thesis by simp
    qed
  next
    case down
    from down Cons.prems(1) obtain cs0 child chn where
      cs0: "children_at s cur = Some cs0" "map_of cs0 c = Some child" "node_at s child = Some chn"
      by (auto split: option.splits)
    have dir: "getType chn = Directory"
    proof (rule ccontr)
      assume f: "getType chn \<noteq> Directory"
      with down cs0 Cons.prems(1) have "x = child" by (simp split: if_splits)
      with cs0(3) f Cons.prems(2) show False
        by (auto simp: children_at_def getType_def split: node_data.splits)
    qed
    with down cs0 Cons.prems(1) have r: "resolve_loop s child ts = Inr x" by simp
    have "\<not> (cur = d \<and> c = nm)"
    proof
      assume "cur = d \<and> c = nm"
      with cs0 cd have "map_of cs nm = Some child" by simp
      from nd [OF this cs0(3)] dir show False by simp
    qed
    with cs0(1,2) cd have m': "\<exists>cs'. children_at ?s' cur = Some cs' \<and> map_of cs' c = Some child"
      by (auto simp: children_at_with_file [OF cd] AList.update_conv' dest: children_at_valid)
    from node_at_with_file_old [OF cs0(3), of d nm b] dir obtain chn' where
      chn': "node_at ?s' child = Some chn'" "getType chn' = Directory" by auto
    from m' chn' down Cons.IH [OF r Cons.prems(2)] show ?thesis by auto
  qed
qed

lemma resolvePath_with_file:
  assumes cd: "children_at s d = Some cs"
    and nd: "\<And>child chn. map_of cs nm = Some child \<Longrightarrow> node_at s child = Some chn \<Longrightarrow>
               getType chn \<noteq> Directory"
    and r: "resolvePath s q = Inr x" and x: "children_at s x \<noteq> None"
  shows "resolvePath (with_file s d nm b) q = Inr x"
proof (cases "q = [] \<or> q = ''/''")
  case True
  with r show ?thesis by (auto simp: resolvePath_def)
next
  case False
  with r have "resolve_loop s (root s) (getlines (skip_slash q)) = Inr x"
    by (simp add: resolvePath_def)
  from resolve_loop_with_file [OF cd nd this x] False show ?thesis
    by (simp add: resolvePath_def)
qed

lemma resolveParentAndName_with_file:
  assumes cd: "children_at s d = Some cs"
    and nd: "\<And>child chn. map_of cs nm = Some child \<Longrightarrow> node_at s child = Some chn \<Longrightarrow>
               getType chn \<noteq> Directory"
    and pn: "resolveParentAndName s p = Inr (d, nm)"
  shows "resolveParentAndName (with_file s d nm b) p = Inr (d, nm)"
proof -
  let ?s' = "with_file s d nm b"
  from pn have ne: "p \<noteq> []" "p \<noteq> ''/''" by (auto simp: resolveParentAndName_def)
  from pn ne obtain k where k: "find_last_of p (CHR ''/'') = Some k"
    by (auto simp: resolveParentAndName_def split: option.splits)
  let ?pp = "if k = 0 then ''/'' else take k p"
  from pn ne k have nm: "nm = drop (Suc k) p" "nm \<noteq> []"
    and rp: "resolvePath s ?pp = Inr d"
    by (auto simp: resolveParentAndName_def Let_def
        split: sum.splits option.splits if_splits)
  from cd have "children_at s d \<noteq> None" by simp
  from resolvePath_with_file [OF cd nd rp this] have rp': "resolvePath ?s' ?pp = Inr d" .
  from cd obtain dn where "node_at s d = Some dn" "getType dn = Directory"
    by (auto simp: getType_def dest!: children_at_SomeD)
  with node_at_with_file_old [of s d dn d nm b] obtain dn' where
    "node_at ?s' d = Some dn'" "getType dn' = Directory" by auto
  with ne k nm rp' show ?thesis
    by (simp add: resolveParentAndName_def Let_def)
qed

lemma writeFile_success:
  assumes "writeFile s p b = (Inr (), s')"
  shows "\<exists>d nm cs. resolveParentAndName s p = Inr (d, nm) \<and> children_at s d = Some cs \<and>
           (\<forall>child chn. map_of cs nm = Some child \<longrightarrow> node_at s child = Some chn \<longrightarrow>
               getType chn \<noteq> Directory) \<and>
           s' = with_file s d nm b"
  using assms
  by (auto simp: writeFile_def with_file_def alloc_def Let_def
      split: sum.splits option.splits prod.splits bool.splits if_splits)

text \<open>
  The round trip of C6 for every other path: when \<^verbatim>\<open>writeFile(p, b)\<close> succeeds and
  the last component of \<open>p\<close> is not \<^verbatim>\<open>.\<close> or \<^verbatim>\<open>..\<close>, \<^verbatim>\<open>cat(p)\<close> returns
  \<open>b\<close>, in any store. The defect is confined to these two names.
\<close>

theorem writeFile_cat_roundtrip:
  assumes wr: "writeFile s p b = (Inr (), s')"
    and pn: "resolveParentAndName s p = Inr (d, nm)"
    and n1: "nm \<noteq> ''.''" and n2: "nm \<noteq> ''..''"
  shows "cat s' p = Inr b"
proof -
  from writeFile_success [OF wr] pn obtain cs where
    cd: "children_at s d = Some cs"
    and nd: "\<And>child chn. map_of cs nm = Some child \<Longrightarrow> node_at s child = Some chn \<Longrightarrow>
               getType chn \<noteq> Directory"
    and s': "s' = with_file s d nm b" by auto
  from resolveParentAndName_with_file [OF cd nd pn]
  have pn': "resolveParentAndName s' p = Inr (d, nm)" by (simp add: s')
  from resolvePath_via_parent [OF pn'] have v: "resolvePath s' p = resolve_loop s' d [nm]"
    and n0: "nm \<noteq> []" by simp_all
  have c': "children_at s' d = Some (AList.update nm (length (heap s)) cs)"
    by (simp add: s' children_at_with_file [OF cd])
  have new: "node_at s' (length (heap s)) = Some \<lparr>name = nm, parent = Some d, data = FileNode b\<rparr>"
    by (simp add: s' node_at_with_file_new [OF cd])
  from resolve_loop_single [OF n0 n1 n2 c'] new v
  have "resolvePath s' p = Inr (length (heap s))" by (simp add: AList.update_conv')
  with new show ?thesis by (simp add: cat_def)
qed

section \<open>Well-formedness is kept\<close>

lemma wf_fs_new_fs: "wf_fs new_fs"
  by (rule wf_fs_boundedI) code_simp

lemma root_link_new [simp]: "root (link_new s d nm dat) = root s"
  by (simp add: link_new_def)

lemma length_heap_link_new [simp]: "length (heap (link_new s d nm dat)) = Suc (length (heap s))"
  by (simp add: link_new_def)

lemma children_at_link_new:
  assumes "children_at s d = Some cs"
  shows "children_at (link_new s d nm dat) a =
     (if a = d then Some (AList.update nm (length (heap s)) cs)
      else if a = length (heap s)
      then (case dat of FileNode _ \<Rightarrow> None | DirectoryNode ds \<Rightarrow> Some ds)
      else children_at s a)"
proof -
  from assms have "d \<noteq> length (heap s)" by (auto dest: children_at_valid)
  with assms show ?thesis
    by (simp add: link_new_def children_at_set_child children_at_alloc)
qed

lemma node_at_link_new_new:
  assumes "children_at s d = Some cs"
  shows "node_at (link_new s d nm dat) (length (heap s)) =
           Some \<lparr>name = nm, parent = Some d, data = dat\<rparr>"
proof -
  from assms have "d \<noteq> length (heap s)" by (auto dest: children_at_valid)
  then show ?thesis by (simp add: link_new_def node_at_set_child_other node_at_alloc)
qed

lemma node_at_link_new_old:
  assumes "node_at s a = Some n"
  shows "\<exists>n'. node_at (link_new s d nm dat) a = Some n' \<and> parent n' = parent n \<and>
               name n' = name n \<and> getType n' = getType n \<and>
               (a \<noteq> d \<longrightarrow> n' = n)"
proof -
  from assms have a: "a \<noteq> length (heap s)" by (auto dest: node_at_SomeD)
  let ?s1 = "s\<lparr>heap := heap s @ [\<lparr>name = nm, parent = Some d, data = dat\<rparr>]\<rparr>"
  from assms a have n1: "node_at ?s1 a = Some n" by (simp add: node_at_alloc)
  show ?thesis
  proof (cases "a = d")
    case False
    with n1 show ?thesis by (simp add: link_new_def node_at_set_child_other)
  next
    case True
    with n1 node_at_set_child_same [of ?s1 d n nm "length (heap s)"] show ?thesis
      by (cases "data n") (simp_all add: link_new_def getType_def)
  qed
qed

lemma climbs_old_nodes:
  assumes r: "root s' = root s"
    and o: "\<And>a n. node_at s a = Some n \<Longrightarrow> \<exists>n'. node_at s' a = Some n' \<and> parent n' = parent n"
  shows "climbs s k a \<Longrightarrow> climbs s' k a"
proof (induction k arbitrary: a)
  case 0
  then show ?case by (simp add: r)
next
  case (Suc k)
  show ?case
  proof (cases "a = root s")
    case True
    then show ?thesis by (simp add: r)
  next
    case False
    with Suc.prems obtain n p where n: "node_at s a = Some n" "parent n = Some p" "climbs s k p"
      by (auto split: option.splits)
    from o [OF n(1)] n(2) obtain n' where "node_at s' a = Some n'" "parent n' = Some p" by auto
    with Suc.IH [OF n(3)] show ?thesis by simp
  qed
qed

lemma update_set: "set (AList.update k v al) \<subseteq> insert (k, v) (set al)"
  by (induction al) auto

lemma wf_fs_link_new:
  assumes w: "wf_fs s" and cd: "children_at s d = Some cs"
    and dat: "dat = DirectoryNode [] \<or> (\<exists>b. dat = FileNode b)"
  shows "wf_fs (link_new s d nm dat)"
proof -
  let ?s' = "link_new s d nm dat"
  let ?N = "length (heap s)"
  from w have rN: "root s < ?N" by (simp add: wf_fs_def)
  from cd have dN: "d < ?N" by (rule children_at_valid)
  have new: "node_at ?s' ?N = Some \<lparr>name = nm, parent = Some d, data = dat\<rparr>"
    by (rule node_at_link_new_new [OF cd])
  have dirs: "children_at ?s' p \<noteq> None" if "children_at s p \<noteq> None" for p
    using that by (auto simp: children_at_link_new [OF cd] dest: children_at_valid)
  have old_entry: "case node_at ?s' c of None \<Rightarrow> False
      | Some cn \<Rightarrow> parent cn = Some a \<and> name cn = k"
    if "children_at s a = Some ca" "(k, c) \<in> set ca" for a ca k c
  proof -
    from wf_child [OF w that] obtain cn where cn: "node_at s c = Some cn" "parent cn = Some a"
      "name cn = k" by blast
    from node_at_link_new_old [OF cn(1), of d nm dat] cn(2,3) show ?thesis by auto
  qed
  have "wf_node ?s' a" if a: "a < Suc ?N" for a
  proof (cases "a = ?N")
    case True
    from dat True new rN dirs [of d] cd show ?thesis by (auto simp: wf_node_def)
  next
    case False
    with a have aN: "a < ?N" by simp
    from wf_fs_node [OF w aN] obtain n where n: "node_at s a = Some n"
      and p: "if a = root s then parent n = None \<and> getType n = Directory
              else (case parent n of None \<Rightarrow> False | Some d \<Rightarrow> children_at s d \<noteq> None)"
      by (auto simp: wf_node_def split: option.splits)
    from node_at_link_new_old [OF n, of d nm dat] obtain n' where
      n': "node_at ?s' a = Some n'" "parent n' = parent n" "name n' = name n"
        "getType n' = getType n" by blast
    have 1: "if a = root ?s' then parent n' = None \<and> getType n' = Directory
              else (case parent n' of None \<Rightarrow> False | Some d \<Rightarrow> children_at ?s' d \<noteq> None)"
      using p n'(2,4) dirs by (auto split: option.splits if_splits)
    have 3: "case data n' of FileNode _ \<Rightarrow> True
               | DirectoryNode cs \<Rightarrow> distinct (map fst cs) \<and>
                   list_all (\<lambda>(nm, c). case node_at ?s' c of None \<Rightarrow> False
                     | Some cn \<Rightarrow> parent cn = Some a \<and> name cn = nm) cs"
    proof (cases "data n'")
      case (FileNode x)
      then show ?thesis by simp
    next
      case (DirectoryNode cs')
      with n'(1) have c': "children_at ?s' a = Some cs'" by (simp add: children_at_def)
      show ?thesis
      proof (cases "a = d")
        case True
        with c' have cs': "cs' = AList.update nm ?N cs" by (simp add: children_at_link_new [OF cd])
        from wf_fs_node [OF w dN] cd have dd: "distinct (map fst cs)"
          by (auto simp: wf_node_def dest!: children_at_SomeD split: option.splits)
        have "\<forall>(k, c) \<in> set cs'. case node_at ?s' c of None \<Rightarrow> False
                     | Some cn \<Rightarrow> parent cn = Some a \<and> name cn = k"
        proof (clarify)
          fix k c assume "(k, c) \<in> set cs'"
          with update_set [of nm ?N cs] cs' have "(k, c) = (nm, ?N) \<or> (k, c) \<in> set cs" by auto
          then show "case node_at ?s' c of None \<Rightarrow> False
                     | Some cn \<Rightarrow> parent cn = Some a \<and> name cn = k"
          proof
            assume "(k, c) = (nm, ?N)"
            with new True show ?thesis by simp
          next
            assume "(k, c) \<in> set cs"
            from old_entry [OF cd this] show ?thesis unfolding True .
          qed
        qed
        with dd cs' DirectoryNode show ?thesis
          by (simp add: list_all_iff AList.distinct_update)
      next
        case False
        with c' aN have ca: "children_at s a = Some cs'"
          by (simp add: children_at_link_new [OF cd] split: if_splits)
        from wf_fs_node [OF w aN] ca have dd: "distinct (map fst cs')"
          by (auto simp: wf_node_def dest!: children_at_SomeD split: option.splits)
        from old_entry [OF ca] dd DirectoryNode show ?thesis
          by (auto simp: list_all_iff)
      qed
    qed
    from n'(1) 1 3 show ?thesis by (simp add: wf_node_def)
  qed
  moreover have "\<exists>k. climbs ?s' k a" if a: "a < Suc ?N" for a
  proof -
    have keep: "climbs s k b \<Longrightarrow> climbs ?s' k b" for k b
      by (rule climbs_old_nodes [where s = s]) (use node_at_link_new_old in \<open>auto, blast\<close>)
    show ?thesis
    proof (cases "a = ?N")
      case False
      with a wf_fs_climbs [OF w, of a] keep show ?thesis by auto
    next
      case True
      from wf_fs_climbs [OF w dN] obtain k where "climbs s k d" ..
      then have "climbs ?s' k d" by (rule keep)
      with new True have "climbs ?s' (Suc k) a" by simp
      then show ?thesis ..
    qed
  qed
  ultimately show ?thesis using rN by (simp add: wf_fs_def list_all_iff)
qed


lemma wf_fs_touch:
  assumes w: "wf_fs s"
  shows "wf_fs (snd (touch s p))"
proof (cases "resolveParentAndName s p")
  case (Inl e)
  with w show ?thesis by (simp add: touch_def)
next
  case (Inr x)
  obtain d nm where x: "x = (d, nm)" by (cases x)
  show ?thesis
  proof (cases "children_at s d")
    case None
    with Inr x w show ?thesis by (simp add: touch_def)
  next
    case (Some cs)
    show ?thesis
    proof (cases "map_of cs nm")
      case None
      have "snd (touch s p) = link_new s d nm (FileNode [])"
        using Inr x Some None by (simp add: touch_def alloc_def link_new_def)
      with wf_fs_link_new [OF w Some, of "FileNode []" nm] show ?thesis by simp
    next
      case (Some child)
      with Inr x \<open>children_at s d = Some cs\<close> w show ?thesis
        by (simp add: touch_def split: option.splits)
    qed
  qed
qed

lemma wf_fs_writeFile:
  assumes w: "wf_fs s"
  shows "wf_fs (snd (writeFile s p b))"
proof (cases "fst (writeFile s p b)")
  case (Inl e)
  then have "writeFile s p b = (Inl e, snd (writeFile s p b))" by (metis prod.collapse)
  from writeFile_fail [OF this] w show ?thesis by simp
next
  case (Inr u)
  then have "writeFile s p b = (Inr (), snd (writeFile s p b))" by (metis prod.collapse old.unit.exhaust)
  from writeFile_success [OF this] obtain d nm cs where
    cd: "children_at s d = Some cs" and s': "snd (writeFile s p b) = with_file s d nm b" by blast
  have "with_file s d nm b = link_new s d nm (FileNode b)"
    by (simp add: with_file_def link_new_def)
  with wf_fs_link_new [OF w cd, of "FileNode b" nm] s' show ?thesis by simp
qed

lemma wf_fs_mkdir_loop:
  "wf_fs s \<Longrightarrow> wf_fs (snd (mkdir_loop s cur cs))"
proof (induction s cur cs rule: mkdir_loop.induct)
  case (1 s current)
  then show ?case by simp
next
  case (2 s current component rest)
  show ?case
  proof (cases "component = []")
    case True
    with 2 show ?thesis by simp
  next
    case False
    show ?thesis
    proof (cases "children_at s current")
      case None
      with 2(4) False show ?thesis by simp
    next
      case (Some cs)
      show ?thesis
      proof (cases "map_of cs component")
        case None
        obtain newDir s1 where al: "alloc s \<lparr>name = component, parent = Some current, data = DirectoryNode []\<rparr> = (newDir, s1)"
          by (cases "alloc s \<lparr>name = component, parent = Some current, data = DirectoryNode []\<rparr>")
        let ?s2 = "set_child s1 current component newDir"
        from al have s2: "?s2 = link_new s current component (DirectoryNode [])"
          by (auto simp: alloc_def link_new_def)
        from wf_fs_link_new [OF 2(4) Some, of "DirectoryNode []" component] s2
        have "wf_fs ?s2" by simp
        from 2(2) [OF False Some None al [symmetric] refl refl this] False Some None al
        show ?thesis by simp
      next
        case (Some child)
        note ch = this
        show ?thesis
        proof (cases "node_at s child")
          case None
          with 2(4) False \<open>children_at s current = Some cs\<close> ch show ?thesis by simp
        next
          case (Some chn)
          show ?thesis
          proof (cases "getType chn = Directory")
            case True
            from 2(3) [OF False \<open>children_at s current = Some cs\<close> ch Some] True 2(4)
              False \<open>children_at s current = Some cs\<close> ch Some
            show ?thesis by simp
          next
            case nd: False
            with 2(4) False \<open>children_at s current = Some cs\<close> ch Some
            show ?thesis by simp
          qed
        qed
      qed
    qed
  qed
qed

lemma wf_fs_mkdir:
  assumes w: "wf_fs s"
  shows "wf_fs (snd (mkdir s p))"
proof (cases "p = ''/''")
  case True
  with w show ?thesis by (simp add: mkdir_def)
next
  case False
  obtain r s' where m: "mkdir_loop s (root s) (getlines (skip_slash p)) = (r, s')"
    by (cases "mkdir_loop s (root s) (getlines (skip_slash p))")
  from wf_fs_mkdir_loop [OF w, of "root s" "getlines (skip_slash p)"] m have "wf_fs s'" by simp
  with False m show ?thesis by (cases r) (simp_all add: mkdir_def)
qed

lemma wf_fs_rm:
  assumes w: "wf_fs s"
  shows "wf_fs (snd (rm s p r))"
proof -
  have "snd (rm s p r) = s \<or> (\<exists>d nm. snd (rm s p r) = erase_child s d nm)"
    by (auto simp: rm_def split: sum.splits option.splits prod.splits if_splits)
  with w wf_fs_erase_child [OF w] show ?thesis by auto
qed

lemma wf_fs_same_shape:
  assumes w: "wf_fs s" and r: "root s' = root s" and l: "length (heap s') = length (heap s)"
    and nodes: "\<And>a n. node_at s a = Some n \<Longrightarrow>
        \<exists>n'. node_at s' a = Some n' \<and> parent n' = parent n \<and> name n' = name n \<and>
             getType n' = getType n"
    and ch: "\<And>a cs'. children_at s' a = Some cs' \<Longrightarrow> children_at s a = Some cs'"
  shows "wf_fs s'"
proof -
  have dirs: "children_at s' p \<noteq> None" if "children_at s p \<noteq> None" for p
  proof -
    from that obtain n where n: "node_at s p = Some n" "getType n = Directory"
      by (auto simp: children_at_def getType_def split: option.splits node_data.splits)
    from nodes [OF n(1)] n(2) obtain n' where "node_at s' p = Some n'" "getType n' = Directory"
      by auto
    then show ?thesis by (rule getType_Directory_children)
  qed
  have "wf_node s' a" if a: "a < length (heap s)" for a
  proof -
    from wf_fs_node [OF w a] obtain n where n: "node_at s a = Some n"
      and p: "if a = root s then parent n = None \<and> getType n = Directory
              else (case parent n of None \<Rightarrow> False | Some d \<Rightarrow> children_at s d \<noteq> None)"
      by (auto simp: wf_node_def split: option.splits)
    from nodes [OF n] obtain n' where
      n': "node_at s' a = Some n'" "parent n' = parent n" "name n' = name n"
        "getType n' = getType n" by blast
    have 1: "if a = root s' then parent n' = None \<and> getType n' = Directory
              else (case parent n' of None \<Rightarrow> False | Some d \<Rightarrow> children_at s' d \<noteq> None)"
      using p n'(2,4) dirs r by (auto split: option.splits if_splits)
    have 3: "case data n' of FileNode _ \<Rightarrow> True
               | DirectoryNode cs \<Rightarrow> distinct (map fst cs) \<and>
                   list_all (\<lambda>(nm, c). case node_at s' c of None \<Rightarrow> False
                     | Some cn \<Rightarrow> parent cn = Some a \<and> name cn = nm) cs"
    proof (cases "data n'")
      case (FileNode x)
      then show ?thesis by simp
    next
      case (DirectoryNode cs')
      with n'(1) have "children_at s' a = Some cs'" by (simp add: children_at_def)
      from ch [OF this] have ca: "children_at s a = Some cs'" .
      from wf_fs_node [OF w a] ca have dd: "distinct (map fst cs')"
        by (auto simp: wf_node_def dest!: children_at_SomeD split: option.splits)
      have "\<forall>(k, c) \<in> set cs'. case node_at s' c of None \<Rightarrow> False
                     | Some cn \<Rightarrow> parent cn = Some a \<and> name cn = k"
      proof (clarify)
        fix k c assume "(k, c) \<in> set cs'"
        from wf_child [OF w ca this] obtain cn where cn: "node_at s c = Some cn"
          "parent cn = Some a" "name cn = k" by blast
        from nodes [OF cn(1)] cn(2,3) show "case node_at s' c of None \<Rightarrow> False
                     | Some cn \<Rightarrow> parent cn = Some a \<and> name cn = k" by auto
      qed
      with dd DirectoryNode show ?thesis by (simp add: list_all_iff)
    qed
    from n'(1) 1 3 show ?thesis by (simp add: wf_node_def)
  qed
  moreover have "\<exists>k. climbs s' k a" if a: "a < length (heap s)" for a
  proof -
    from wf_fs_climbs [OF w a] obtain k where k: "climbs s k a" ..
    have "climbs s' k a"
      by (rule climbs_old_nodes [OF r _ k]) (use nodes in blast)
    then show ?thesis ..
  qed
  ultimately show ?thesis using w r l by (simp add: wf_fs_def list_all_iff)
qed

lemma wf_fs_append:
  assumes w: "wf_fs s"
  shows "wf_fs (snd (append_fs s p b))"
proof (cases "fst (append_fs s p b)")
  case (Inl e)
  then have "append_fs s p b = (Inl e, snd (append_fs s p b))" by (metis prod.collapse)
  from append_fail [OF this] w show ?thesis by simp
next
  case (Inr u)
  then obtain a n old where n: "node_at s a = Some n" "data n = FileNode old"
    and s': "snd (append_fs s p b) = put_node s a (n\<lparr>data := FileNode (old @ b)\<rparr>)"
    by (auto simp: append_fs_def split: sum.splits option.splits node_data.splits)
  let ?s' = "put_node s a (n\<lparr>data := FileNode (old @ b)\<rparr>)"
  have "wf_fs ?s'"
  proof (rule wf_fs_same_shape [OF w])
    show "root ?s' = root s" by simp
    show "length (heap ?s') = length (heap s)" by simp
    show "\<exists>n'. node_at ?s' x = Some n' \<and> parent n' = parent m \<and> name n' = name m \<and>
             getType n' = getType m" if "node_at s x = Some m" for x m
      using that n by (auto simp: node_at_put_node getType_def dest: node_at_SomeD)
    show "children_at s x = Some cs'" if "children_at ?s' x = Some cs'" for x cs'
      using that n by (auto simp: children_at_def node_at_put_node split: if_splits)
  qed
  with s' show ?thesis by simp
qed

lemma link_new_dirs:
  assumes "children_at s d = Some cs" "children_at s a \<noteq> None"
  shows "children_at (link_new s d nm dat) a \<noteq> None"
  using assms by (auto simp: children_at_link_new [OF assms(1)] dest: children_at_valid)

lemma recursiveCopy_loop_wf:
  assumes "recursiveCopy_loop s dest entries = Some y"
  shows "wf_fs s \<longrightarrow> children_at s dest \<noteq> None \<longrightarrow>
     (\<forall>s'. y = Inr s' \<longrightarrow>
        wf_fs s' \<and> (\<forall>a. children_at s a \<noteq> None \<longrightarrow> children_at s' a \<noteq> None))"
proof (rule recursiveCopy_loop.raw_induct
    [where P = "\<lambda>s dest entries y. wf_fs s \<longrightarrow> children_at s dest \<noteq> None \<longrightarrow>
       (\<forall>s'. y = Inr s' \<longrightarrow>
          wf_fs s' \<and> (\<forall>a. children_at s a \<noteq> None \<longrightarrow> children_at s' a \<noteq> None))",
      OF _ assms], goal_cases)
  case (1 rcl s dest entries y)
  show ?case
  proof (intro impI allI)
    fix s'
    assume w: "wf_fs s" and dd: "children_at s dest \<noteq> None" and y: "y = Inr s'"
    from dd obtain dcs where dcs: "children_at s dest = Some dcs" by auto
    show "wf_fs s' \<and> (\<forall>a. children_at s a \<noteq> None \<longrightarrow> children_at s' a \<noteq> None)"
    proof (cases entries)
      case Nil
      with 1(2) y w show ?thesis by simp
    next
      case (Cons x rest)
      obtain nm child where x: "x = (nm, child)" by (cases x)
      from 1(2) Cons x y obtain chn where chn: "node_at s child = Some chn"
        by (cases "node_at s child") auto
      show ?thesis
      proof (cases "data chn")
        case (FileNode bytes)
        let ?s2 = "link_new s dest (name chn) (FileNode bytes)"
        from 1(2) Cons x chn FileNode have r: "rcl ?s2 dest rest = Some y"
          by (simp add: alloc_def link_new_def)
        have w2: "wf_fs ?s2" by (rule wf_fs_link_new [OF w dcs]) simp
        have d2: "children_at ?s2 a \<noteq> None" if "children_at s a \<noteq> None" for a
          by (rule link_new_dirs [OF dcs that])
        from 1(1) [OF r] w2 d2 [OF dd] y
        have "wf_fs s' \<and> (\<forall>a. children_at ?s2 a \<noteq> None \<longrightarrow> children_at s' a \<noteq> None)"
          by blast
        with d2 show ?thesis by blast
      next
        case (DirectoryNode ccs)
        let ?s2 = "link_new s dest (name chn) (DirectoryNode [])"
        let ?newDir = "length (heap s)"
        have w2: "wf_fs ?s2" by (rule wf_fs_link_new [OF w dcs]) simp
        have d2: "children_at ?s2 a \<noteq> None" if "children_at s a \<noteq> None" for a
          by (rule link_new_dirs [OF dcs that])
        have n2: "children_at ?s2 ?newDir \<noteq> None"
          using dcs by (auto simp: children_at_link_new [OF dcs] dest: children_at_valid)
        from 1(2) Cons x chn DirectoryNode y obtain cs2 r where
          cs2: "children_at ?s2 child = Some cs2"
          and r1: "rcl ?s2 ?newDir cs2 = Some r"
          and r2: "(case r of Inl e \<Rightarrow> Some (Inl e) | Inr s3 \<Rightarrow> rcl s3 dest rest) = Some y"
          by (auto simp: alloc_def link_new_def Let_def Option.bind_eq_Some_conv
              split: option.splits)
        from r2 y obtain s3 where s3: "r = Inr s3" "rcl s3 dest rest = Some y"
          by (cases r) auto
        from 1(1) [OF r1] w2 n2 s3(1)
        have w3: "wf_fs s3" and d3: "\<forall>a. children_at ?s2 a \<noteq> None \<longrightarrow> children_at s3 a \<noteq> None"
          by blast+
        from d3 d2 [OF dd] have "children_at s3 dest \<noteq> None" by blast
        with 1(1) [OF s3(2)] w3 y
        have "wf_fs s' \<and> (\<forall>a. children_at s3 a \<noteq> None \<longrightarrow> children_at s' a \<noteq> None)"
          by blast
        with d2 d3 show ?thesis by blast
      qed
    qed
  qed
qed

lemma resolveDestination_dir:
  assumes "resolveDestination s dst nm = Inr (np, nn)"
  shows "children_at s np \<noteq> None"
proof (cases "resolveDestination_try s dst nm")
  case (Inr r)
  with assms have "resolveDestination_try s dst nm = Inr (np, nn)"
    by (simp add: resolveDestination_def)
  then show ?thesis
    by (auto simp: resolveDestination_try_def children_at_def
        split: sum.splits option.splits node_data.splits if_splits)
next
  case (Inl e)
  with assms have "resolveParentAndName s dst = Inr (np, nn)"
    by (simp add: resolveDestination_def split: if_splits)
  from resolvePath_via_parent [OF this] show ?thesis by simp
qed

lemma cp_directory:
  assumes "resolvePath s p = Inr src" "node_at s src = Some sn"
    "resolveDestination s q (name sn) = Inr (dp, nn)" "children_at s dp = Some dcs"
    "map_of dcs nn = None" "data sn = DirectoryNode scs"
  shows "cp s p q =
    (case children_at (link_new s dp nn (DirectoryNode [])) src of
       None \<Rightarrow> Some (Inl UndefinedBehaviour, link_new s dp nn (DirectoryNode []))
     | Some cs \<Rightarrow>
         Option.bind
           (recursiveCopy_loop (link_new s dp nn (DirectoryNode [])) (length (heap s)) cs)
           (\<lambda>r. case r of
                  Inl e \<Rightarrow> Some (Inl e, link_new s dp nn (DirectoryNode []))
                | Inr s3 \<Rightarrow> Some (Inr (), s3)))"
  using assms unfolding link_new_def by (simp add: cp_def alloc_def Let_def)

lemma wf_fs_cp:
  assumes w: "wf_fs s" and c: "cp s p q = Some x"
  shows "wf_fs (snd x)"
proof (cases "resolvePath s p")
  case (Inl e)
  with c w show ?thesis by (auto simp: cp_def)
next
  case (Inr src)
  show ?thesis
  proof (cases "node_at s src")
    case None
    with Inr c w show ?thesis by (auto simp: cp_def)
  next
    case (Some sn)
    show ?thesis
    proof (cases "resolveDestination s q (name sn)")
      case (Inl e)
      with Inr Some c w show ?thesis by (auto simp: cp_def)
    next
      case rd: (Inr y)
      obtain dp nn where y: "y = (dp, nn)" by (cases y)
      from resolveDestination_dir rd y obtain dcs where dcs: "children_at s dp = Some dcs"
        by fastforce
      show ?thesis
      proof (cases "map_of dcs nn \<noteq> None")
        case True
        with Inr Some rd y dcs c w show ?thesis by (auto simp: cp_def)
      next
        case False
        show ?thesis
        proof (cases "data sn")
          case (FileNode bytes)
          with Inr Some rd y dcs False c
          have "snd x = link_new s dp nn (FileNode bytes)"
            by (auto simp: cp_def alloc_def link_new_def Let_def)
          with wf_fs_link_new [OF w dcs, of "FileNode bytes" nn] show ?thesis by simp
        next
          case (DirectoryNode scs)
          let ?s2 = "link_new s dp nn (DirectoryNode [])"
          have w2: "wf_fs ?s2" by (rule wf_fs_link_new [OF w dcs]) simp
          have n2: "children_at ?s2 (length (heap s)) \<noteq> None"
            using dcs by (auto simp: children_at_link_new [OF dcs] dest: children_at_valid)
          from False have mn: "map_of dcs nn = None" by simp
          note u = cp_directory [OF Inr Some rd [unfolded y] dcs mn DirectoryNode]
          show ?thesis
          proof (cases "children_at ?s2 src")
            case None
            with u c have "snd x = ?s2" by simp
            with w2 show ?thesis by simp
          next
            case cs: (Some cs)
            with u c have b: "Option.bind (recursiveCopy_loop ?s2 (length (heap s)) cs)
                (\<lambda>r. case r of Inl e \<Rightarrow> Some (Inl e, ?s2) | Inr s3 \<Rightarrow> Some (Inr (), s3)) = Some x"
              by simp
            then obtain r where
              r: "recursiveCopy_loop ?s2 (length (heap s)) cs = Some r"
              and x: "(case r of Inl e \<Rightarrow> Some (Inl e, ?s2) | Inr s3 \<Rightarrow> Some (Inr (), s3)) = Some x"
              by (cases "recursiveCopy_loop ?s2 (length (heap s)) cs") auto
            show ?thesis
            proof (cases r)
              case (Inl e)
              with x w2 show ?thesis by auto
            next
              case (Inr s3)
              with recursiveCopy_loop_wf [OF r] w2 n2 have "wf_fs s3" by blast
              with x Inr show ?thesis by auto
            qed
          qed
        qed
      qed
    qed
  qed
qed

lemma root_set_parent_name [simp]: "root (set_parent_name s a p n) = root s"
  by (simp add: set_parent_name_def split: option.splits)

lemma length_heap_set_parent_name [simp]:
  "length (heap (set_parent_name s a p n)) = length (heap s)"
  by (simp add: set_parent_name_def split: option.splits)

lemma node_at_set_parent_name:
  "node_at (set_parent_name s a p n) b =
     (if b = a then map_option (\<lambda>m. m\<lparr>parent := Some p, name := n\<rparr>) (node_at s a)
      else node_at s b)"
  by (auto simp: set_parent_name_def node_at_put_node dest: node_at_SomeD split: option.splits)

lemma children_at_set_parent_name [simp]:
  "children_at (set_parent_name s a p n) b = children_at s b"
  by (auto simp: children_at_def node_at_set_parent_name split: option.splits)

lemma root_relink [simp]: "root (relink s src np nn) = root s"
  by (simp add: relink_def)

lemma length_heap_relink [simp]: "length (heap (relink s src np nn)) = length (heap s)"
  by (simp add: relink_def)

lemma children_at_relink:
  "children_at (relink s src np nn) a =
     (if a = np then map_option (AList.update nn src) (children_at s np) else children_at s a)"
  by (simp add: relink_def children_at_set_child)

lemma node_at_relink:
  assumes "node_at s a = Some n"
  shows "\<exists>n'. node_at (relink s src np nn) a = Some n' \<and>
      parent n' = (if a = src then Some np else parent n) \<and>
      name n' = (if a = src then nn else name n) \<and> getType n' = getType n"
proof -
  let ?s2 = "set_parent_name s src np nn"
  let ?m = "if a = src then n\<lparr>parent := Some np, name := nn\<rparr> else n"
  from assms have n2: "node_at ?s2 a = Some ?m" by (auto simp: node_at_set_parent_name)
  show ?thesis
  proof (cases "a = np")
    case False
    with n2 show ?thesis by (simp add: relink_def node_at_set_child_other getType_def)
  next
    case True
    from node_at_set_child_same [OF n2 [unfolded True], of nn src] True show ?thesis
      by (cases "data n") (auto simp: relink_def getType_def)
  qed
qed

lemma cycle_loop_False_climbs:
  assumes r: "root s' = root s"
    and o: "\<And>a n. a \<noteq> src \<Longrightarrow> node_at s a = Some n \<Longrightarrow>
              \<exists>n'. node_at s' a = Some n' \<and> parent n' = parent n"
  shows "climbs s k t \<Longrightarrow> cycle_loop s src (Some t) = Some (Inr False) \<Longrightarrow> climbs s' k t"
proof (induction k arbitrary: t)
  case 0
  then show ?case by (simp add: r)
next
  case (Suc k)
  show ?case
  proof (cases "t = root s")
    case True
    then show ?thesis by (simp add: r)
  next
    case False
    with Suc.prems(1) obtain n p where n: "node_at s t = Some n" "parent n = Some p"
      "climbs s k p" by (auto split: option.splits)
    from Suc.prems(2) have ts: "t \<noteq> src"
      by (subst (asm) cycle_loop.simps) (auto split: if_splits)
    from Suc.prems(2) ts n have "cycle_loop s src (Some p) = Some (Inr False)"
      by (subst (asm) cycle_loop.simps) simp
    from Suc.IH [OF n(3) this] have "climbs s' k p" .
    moreover from o [OF ts n(1)] n(2) obtain n' where "node_at s' t = Some n'"
      "parent n' = Some p" by auto
    ultimately show ?thesis by simp
  qed
qed

lemma wf_fs_relink:
  assumes w: "wf_fs s" and sn: "node_at s src = Some n" and sr: "src \<noteq> root s"
    and npd: "children_at s np = Some ncs"
    and unl: "\<And>a ca k. children_at s a = Some ca \<Longrightarrow> (k, src) \<notin> set ca"
    and cnp: "\<exists>j. climbs (relink s src np nn) j np"
  shows "wf_fs (relink s src np nn)"
proof -
  let ?s' = "relink s src np nn"
  from w have rN: "root s < length (heap s)" by (simp add: wf_fs_def)
  have dirs: "children_at ?s' p \<noteq> None" if "children_at s p \<noteq> None" for p
    using that by (auto simp: children_at_relink)
  have entry: "case node_at ?s' c of None \<Rightarrow> False
      | Some cn \<Rightarrow> parent cn = Some a \<and> name cn = k"
    if "children_at s a = Some ca" "(k, c) \<in> set ca" for a ca k c
  proof -
    from unl [OF that(1)] that(2) have cs: "c \<noteq> src" by auto
    from wf_child [OF w that] obtain cn where cn: "node_at s c = Some cn" "parent cn = Some a"
      "name cn = k" by blast
    from node_at_relink [OF cn(1), of src np nn] cs cn(2,3) show ?thesis by auto
  qed
  from node_at_relink [OF sn, of src np nn] obtain sn' where
    sn': "node_at ?s' src = Some sn'" "parent sn' = Some np" "name sn' = nn" by auto
  have "wf_node ?s' a" if a: "a < length (heap s)" for a
  proof -
    from wf_fs_node [OF w a] obtain m where m: "node_at s a = Some m"
      and p: "if a = root s then parent m = None \<and> getType m = Directory
              else (case parent m of None \<Rightarrow> False | Some d \<Rightarrow> children_at s d \<noteq> None)"
      by (auto simp: wf_node_def split: option.splits)
    from node_at_relink [OF m, of src np nn] obtain m' where
      m': "node_at ?s' a = Some m'" "parent m' = (if a = src then Some np else parent m)"
        "getType m' = getType m" by blast
    have 1: "if a = root ?s' then parent m' = None \<and> getType m' = Directory
              else (case parent m' of None \<Rightarrow> False | Some d \<Rightarrow> children_at ?s' d \<noteq> None)"
      using p m'(2,3) dirs sr npd by (auto split: option.splits if_splits)
    have 3: "case data m' of FileNode _ \<Rightarrow> True
               | DirectoryNode cs \<Rightarrow> distinct (map fst cs) \<and>
                   list_all (\<lambda>(nm, c). case node_at ?s' c of None \<Rightarrow> False
                     | Some cn \<Rightarrow> parent cn = Some a \<and> name cn = nm) cs"
    proof (cases "data m'")
      case (FileNode x)
      then show ?thesis by simp
    next
      case (DirectoryNode cs')
      with m'(1) have c': "children_at ?s' a = Some cs'" by (simp add: children_at_def)
      show ?thesis
      proof (cases "a = np")
        case True
        with c' npd have cs': "cs' = AList.update nn src ncs" by (simp add: children_at_relink)
        from wf_fs_node [OF w a] npd True have dd: "distinct (map fst ncs)"
          by (auto simp: wf_node_def dest!: children_at_SomeD split: option.splits)
        have "\<forall>(k, c) \<in> set cs'. case node_at ?s' c of None \<Rightarrow> False
                     | Some cn \<Rightarrow> parent cn = Some a \<and> name cn = k"
        proof (clarify)
          fix k c assume "(k, c) \<in> set cs'"
          with update_set [of nn src ncs] cs' have "(k, c) = (nn, src) \<or> (k, c) \<in> set ncs" by auto
          then show "case node_at ?s' c of None \<Rightarrow> False
                     | Some cn \<Rightarrow> parent cn = Some a \<and> name cn = k"
          proof
            assume "(k, c) = (nn, src)"
            with sn' True show ?thesis by simp
          next
            assume "(k, c) \<in> set ncs"
            from entry [OF npd this] show ?thesis unfolding True .
          qed
        qed
        with dd cs' DirectoryNode show ?thesis
          by (simp add: list_all_iff AList.distinct_update)
      next
        case False
        with c' have ca: "children_at s a = Some cs'" by (simp add: children_at_relink)
        from wf_fs_node [OF w a] ca have dd: "distinct (map fst cs')"
          by (auto simp: wf_node_def dest!: children_at_SomeD split: option.splits)
        from entry [OF ca] dd DirectoryNode show ?thesis
          by (auto simp: list_all_iff)
      qed
    qed
    from m'(1) 1 3 show ?thesis by (simp add: wf_node_def)
  qed
  moreover have "\<exists>k. climbs ?s' k a" if a: "a < length (heap s)" for a
  proof -
    have others: "\<exists>n'. node_at ?s' b = Some n' \<and> parent n' = parent m"
      if "b \<noteq> src" "node_at s b = Some m" for b m
      using node_at_relink [OF that(2), of src np nn] that(1) by auto
    from cnp obtain j where "climbs ?s' j np" ..
    with sn' have csrc: "climbs ?s' (Suc j) src" by simp
    have "climbs s k b \<Longrightarrow> \<exists>k'. climbs ?s' k' b" for k b
    proof (induction k arbitrary: b)
      case 0
      then have "climbs ?s' 0 b" by simp
      then show ?case ..
    next
      case (Suc k)
      show ?case
      proof (cases "b = root s \<or> b = src")
        case True
        then show ?thesis
        proof
          assume "b = root s"
          then have "climbs ?s' 0 b" by simp
          then show ?thesis ..
        next
          assume "b = src"
          with csrc show ?thesis by blast
        qed
      next
        case False
        with Suc.prems obtain m p where m: "node_at s b = Some m" "parent m = Some p"
          "climbs s k p" by (auto split: option.splits)
        from Suc.IH [OF m(3)] obtain k' where k': "climbs ?s' k' p" ..
        from others [of b m] False m(1,2) obtain m' where "node_at ?s' b = Some m'"
          "parent m' = Some p" by auto
        with k' have "climbs ?s' (Suc k') b" by simp
        then show ?thesis ..
      qed
    qed
    with wf_fs_climbs [OF w a] show ?thesis by blast
  qed
  ultimately show ?thesis using rN by (simp add: wf_fs_def list_all_iff)
qed


lemma mv_success:
  assumes m: "mv s p q = Some (Inr (), s')"
  shows "\<exists>src sn opar np nn.
    resolvePath s p = Inr src \<and> node_at s src = Some sn \<and> parent sn = Some opar \<and>
    resolveDestination s q (name sn) = Inr (np, nn) \<and>
    cycle_loop s src (Some np) = Some (Inr False) \<and>
    s' = relink (erase_child s opar (name sn)) src np nn"
proof -
  from m have 0: "p \<noteq> ''/''" by (auto simp: mv_def)
  from m 0 obtain src where 1: "resolvePath s p = Inr src"
    by (cases "resolvePath s p") (auto simp: mv_def)
  from m 0 1 obtain sn where 2: "node_at s src = Some sn"
    by (cases "node_at s src") (auto simp: mv_def)
  from m 0 1 2 obtain opar where 3: "parent sn = Some opar"
    by (cases "parent sn") (auto simp: mv_def)
  from m 0 1 2 3 obtain np nn where 4: "resolveDestination s q (name sn) = Inr (np, nn)"
    by (cases "resolveDestination s q (name sn)") (auto simp: mv_def)
  from m 0 1 2 3 4 obtain c where 5: "cycle_loop s src (Some np) = Some c"
    by (cases "cycle_loop s src (Some np)") (auto simp: mv_def)
  from m 0 1 2 3 4 5 have 6: "c = Inr False"
    by (cases c) (auto simp: mv_def split: bool.splits)
  from m 0 1 2 3 4 5 6 have "s' = relink (erase_child s opar (name sn)) src np nn"
    by (cases "children_at s opar") (auto simp: mv_def relink_def Let_def)
  with 1 2 3 4 5 6 show ?thesis by blast
qed

lemma wf_fs_mv:
  assumes w: "wf_fs s" and m: "mv s p q = Some x"
  shows "wf_fs (snd x)"
proof (cases "fst x")
  case (Inl e)
  then have "x = (Inl e, snd x)" by (metis prod.collapse)
  with m mv_fail [of s p q e "snd x"] w show ?thesis by simp
next
  case (Inr u)
  then have x: "x = (Inr (), snd x)" by (metis prod.collapse old.unit.exhaust)
  from m x have "mv s p q = Some (Inr (), snd x)" by simp
  from mv_success [OF this] obtain src sn opar np nn where
    src: "node_at s src = Some sn" "parent sn = Some opar"
    and rd: "resolveDestination s q (name sn) = Inr (np, nn)"
    and cyc: "cycle_loop s src (Some np) = Some (Inr False)"
    and s3: "snd x = relink (erase_child s opar (name sn)) src np nn"
    by blast
  let ?s1 = "erase_child s opar (name sn)"
  let ?s3 = "relink ?s1 src np nn"
  have w1: "wf_fs ?s1" by (rule wf_fs_erase_child [OF w])
  from src(1) obtain n1 where n1: "node_at ?s1 src = Some n1"
    by (auto simp: node_at_def split: if_splits)
  from wf_root_node [OF w] src have sr: "src \<noteq> root ?s1" by auto
  from resolveDestination_dir [OF rd] have "children_at ?s1 np \<noteq> None"
    by (simp add: children_at_erase_child_None)
  then obtain ncs where npd: "children_at ?s1 np = Some ncs" by auto
  have unl: "(k, src) \<notin> set ca" if "children_at ?s1 a = Some ca" for a ca k
  proof
    assume mem: "(k, src) \<in> set ca"
    from erase_child_children_subset [OF that] obtain ca0 where
      ca0: "children_at s a = Some ca0" "set ca \<subseteq> set ca0"
        "a = opar \<longrightarrow> ca = AList.delete (name sn) ca0" by blast
    from mem ca0(2) have "(k, src) \<in> set ca0" by blast
    from wf_child [OF w ca0(1) this] src have "a = opar" "k = name sn" by auto
    with ca0(3) mem show False by (simp add: AList.delete_eq)
  qed
  have others: "\<exists>n'. node_at ?s3 b = Some n' \<and> parent n' = parent mm"
    if "b \<noteq> src" "node_at s b = Some mm" for b mm
  proof -
    from that(2) obtain m1 where m1: "node_at ?s1 b = Some m1"
      by (auto simp: node_at_def split: if_splits)
    from erase_child_node_props [OF m1] that(2) have "parent m1 = parent mm" by auto
    with node_at_relink [OF m1, of src np nn] that(1) show ?thesis by auto
  qed
  from resolveDestination_dir [OF rd] have "np < length (heap s)"
    by (auto dest: children_at_valid)
  from wf_fs_climbs [OF w this] obtain j where j: "climbs s j np" ..
  have "climbs ?s3 j np"
    by (rule cycle_loop_False_climbs [OF _ _ j cyc]) (use others in auto)
  then have cnp: "\<exists>j. climbs ?s3 j np" ..
  from wf_fs_relink [OF w1 n1 sr npd unl cnp] s3 show ?thesis by simp
qed

text \<open>
  Every store that the operations can build is well-formed: the fresh file system is,
  and each operation that returns leaves a well-formed store when it was given one.
  The statements about well-formed stores are therefore statements about every state
  of the tree.
\<close>

theorem wf_fs_invariant:
  "wf_fs new_fs"
  "wf_fs s \<Longrightarrow> wf_fs (snd (mkdir s p))"
  "wf_fs s \<Longrightarrow> wf_fs (snd (touch s p))"
  "wf_fs s \<Longrightarrow> wf_fs (snd (writeFile s p b))"
  "wf_fs s \<Longrightarrow> wf_fs (snd (append_fs s p b))"
  "wf_fs s \<Longrightarrow> wf_fs (snd (rm s p r))"
  "wf_fs s \<Longrightarrow> cp s p q = Some x \<Longrightarrow> wf_fs (snd x)"
  "wf_fs s \<Longrightarrow> mv s p q = Some x \<Longrightarrow> wf_fs (snd x)"
  by (rule wf_fs_new_fs wf_fs_mkdir wf_fs_touch wf_fs_writeFile wf_fs_append wf_fs_rm
      wf_fs_cp wf_fs_mv; assumption)+

end
